theory Spec2Isabelle
  imports Main "HOL-Library.Word"
begin

text \<open>
  A model of \<open>src/components/ChatUIUXShowcase.tsx\<close>: the state of the root component
  and of its composer, the handlers as functions on that state, and the asynchronous
  \<open>handleSend\<close> as a call in flight that advances one \<open>await\<close> at a time, so that
  other handlers can run in between. The properties of the message list, the delivery
  status, the theme, the composer and the replies are proved about these functions.
\<close>

section \<open>Strings of the source language\<close>

text \<open>
  The component is written in TypeScript: a string is a sequence of UTF-16 code units,
  and \<open>trim\<close>, \<open>startsWith\<close>, \<open>slice\<close> and \<open>split\<close> work on code units. The
  literals of the source that hold characters outside ASCII (U+2019, U+2011, U+2013,
  U+2318, U+2022, U+2728) are written with their code units.
\<close>

type_synonym code_unit = "16 word"
type_synonym jsstring = "code_unit list"

definition js :: "string \<Rightarrow> jsstring" where
  \<comment> \<open>an ASCII literal of the source as code units\<close>
  "js s = map (\<lambda>c. word_of_nat (of_char c)) s"

definition is_trim_space :: "code_unit \<Rightarrow> bool" where
  \<comment> \<open>what \<open>String.prototype.trim\<close> strips: ECMAScript WhiteSpace and LineTerminator\<close>
  "is_trim_space c \<longleftrightarrow>
     c = 0x0009 \<or> c = 0x000A \<or> c = 0x000B \<or> c = 0x000C \<or> c = 0x000D \<or> c = 0x0020 \<or>
     c = 0x00A0 \<or> c = 0x1680 \<or> (0x2000 \<le> c \<and> c \<le> 0x200A) \<or> c = 0x2028 \<or>
     c = 0x2029 \<or> c = 0x202F \<or> c = 0x205F \<or> c = 0x3000 \<or> c = 0xFEFF"

definition trim :: "jsstring \<Rightarrow> jsstring" where
  "trim s = rev (dropWhile is_trim_space (rev (dropWhile is_trim_space s)))"

definition startsWith :: "jsstring \<Rightarrow> jsstring \<Rightarrow> bool" where
  "startsWith s p \<longleftrightarrow> take (length p) s = p"

definition slice_from :: "nat \<Rightarrow> jsstring \<Rightarrow> jsstring" where
  \<comment> \<open>\<open>s.slice(n)\<close> for a non-negative \<open>n\<close>\<close>
  "slice_from n s = drop n s"

fun split_on :: "code_unit \<Rightarrow> jsstring \<Rightarrow> jsstring list" where
  \<comment> \<open>\<open>s.split(sep)\<close> for a separator of one code unit; \<open>"".split(sep)\<close> is \<open>[""]\<close>\<close>
  "split_on sep [] = [[]]"
| "split_on sep (c # cs) =
     (if c = sep then [] # split_on sep cs
      else (case split_on sep cs of
              [] \<Rightarrow> [[c]]
            | p # ps \<Rightarrow> (c # p) # ps))"

definition toLowerCase_ascii :: "jsstring \<Rightarrow> jsstring" where
  \<comment> \<open>\<open>toLowerCase\<close> on strings of ASCII code units. The full Unicode case mapping is a
      table of the runtime, so every definition below that lowercases takes the mapping
      as its first argument; this instance evaluates them on ASCII inputs.\<close>
  "toLowerCase_ascii s = map (\<lambda>c. if 0x41 \<le> c \<and> c \<le> 0x5A then c + 0x20 else c) s"

section \<open>Data model\<close>

datatype Sender = User | Bot

datatype MsgStatus = Sending | Sent | Delivered | Read

datatype AttachmentType = ImageAtt | FileAtt

record Attachment =
  att_type :: AttachmentType
  att_name :: jsstring

record Message =
  msg_id :: jsstring
  sender :: Sender
  msg_text :: jsstring
  time :: jsstring
  status :: "MsgStatus option"
  attachments :: "Attachment list option"

record Thread =
  thread_id :: jsstring
  title :: jsstring
  lastMessage :: jsstring
  unread :: "nat option"
  pinned :: "bool option"

datatype Theme = Light | Dark

definition demoThreads :: "Thread list" where
  "demoThreads =
    [\<lparr>thread_id = js ''t1'', title = js ''Portfolio Review '' @ [0x2728],
      lastMessage = js ''Let'' @ [0x2019] @ js ''s make it pop.'',
      unread = Some 2, pinned = Some True\<rparr>,
     \<lparr>thread_id = js ''t2'', title = js ''UX Interview Prep'',
      lastMessage = js ''Walk me through a flow.'', unread = None, pinned = None\<rparr>,
     \<lparr>thread_id = js ''t3'', title = js ''Client '' @ [0x2013] @ js '' AI Keyboard'',
      lastMessage = js ''Ship date confirmed.'', unread = None, pinned = None\<rparr>,
     \<lparr>thread_id = js ''t4'', title = js ''Hackathon Team'',
      lastMessage = js ''Standup in 10 mins'', unread = Some 1, pinned = None\<rparr>]"

definition introMessages :: "Message list" where
  "introMessages =
    [\<lparr>msg_id = js ''m1'', sender = Bot,
      msg_text = js ''Hey! I'' @ [0x2019] @ js ''m the demo assistant. Ask me anything about this UI.'',
      time = js ''09:58'', status = None, attachments = None\<rparr>,
     \<lparr>msg_id = js ''m2'', sender = User,
      msg_text = js ''Show me your best micro'' @ [0x2011] @ js ''interactions.'',
      time = js ''10:01'', status = Some Read, attachments = None\<rparr>,
     \<lparr>msg_id = js ''m3'', sender = Bot,
      msg_text = js ''You'' @ [0x2019] @ js ''ll see motion, affordances, and accessible controls throughout.'',
      time = js ''10:02'', status = None, attachments = None\<rparr>]"

section \<open>Component state\<close>

text \<open>
  \<open>handleSend\<close> is asynchronous: between its four \<open>await wait(ms)\<close> other handlers
  run. A call in flight is a \<open>SendFlow\<close>: the variables its closure holds (\<open>id\<close>,
  \<open>text\<close>, the \<open>theme\<close> of the render that created it, \<open>reply\<close> once computed) and the
  \<open>await\<close> it is suspended at.
\<close>

datatype Stage = Wait400 | Wait300 | Wait700 | Wait600 jsstring

record SendFlow =
  flow_id :: jsstring
  flow_text :: jsstring
  flow_theme :: Theme
  flow_stage :: Stage

record State =
  theme :: Theme
  messages :: "Message list"
  typing :: bool
  activeThread :: jsstring
  showSettings :: bool
  input_value :: jsstring  \<comment> \<open>\<open>value\<close> of \<open>MessageInput\<close>\<close>
  rows :: nat  \<comment> \<open>\<open>rows\<close> of \<open>MessageInput\<close>\<close>
  pending :: "SendFlow list"  \<comment> \<open>the calls of \<open>handleSend\<close> in flight\<close>

definition initial_state :: State where
  "initial_state =
    \<lparr>theme = Dark, messages = introMessages, typing = False, activeThread = js ''t1'',
     showSettings = False, input_value = [], rows = 1, pending = []\<rparr>"

text \<open>
  What the runtime hands to a handler: the value of \<open>crypto.randomUUID()\<close>, the
  memoised \<open>timeNow\<close> of the current render, and the clock string of
  \<open>new Date().toLocaleTimeString(...)\<close>.
\<close>

record Env =
  randomUUID :: jsstring
  timeNow :: jsstring
  clock :: jsstring


record KeyEvent =
  key :: jsstring
  ctrlKey :: bool
  metaKey :: bool
  shiftKey :: bool

section \<open>Handlers\<close>

subsection \<open>The composer (\<open>MessageInput\<close>)\<close>

definition handleChange :: "jsstring \<Rightarrow> State \<Rightarrow> State" where
  "handleChange v s =
     (let lines = length (split_on 0x000A v)
      in s\<lparr>input_value := v, rows := min 6 (max 1 lines)\<rparr>)"

subsection \<open>\<open>handleSend\<close>\<close>

definition set_status :: "jsstring \<Rightarrow> MsgStatus \<Rightarrow> Message \<Rightarrow> Message" where
  \<comment> \<open>\<open>(m) => (m.id === id ? { ...m, status: st } : m)\<close>\<close>
  "set_status i st m = (if msg_id m = i then m\<lparr>status := Some st\<rparr> else m)"

definition theme_name :: "Theme \<Rightarrow> jsstring" where
  "theme_name t = (case t of Light \<Rightarrow> js ''light'' | Dark \<Rightarrow> js ''dark'')"

definition reply_default :: jsstring where
  "reply_default = js ''Nice! Sending a playful, helpful response with motion and clarity.''"

definition reply_help :: jsstring where
  "reply_help = js ''Commands: /help, /shortcuts, /theme, /a11y''"

definition reply_shortcuts :: jsstring where
  "reply_shortcuts =
     [0x2318] @ js ''/Ctrl+K command palette '' @ [0x2022] @ js '' '' @ [0x2318] @
     js ''/Ctrl+J toggle theme '' @ [0x2022] @ js '' Enter to send''"

definition reply_theme :: "Theme \<Rightarrow> jsstring" where
  "reply_theme t =
     js ''Theme is currently '' @ theme_name t @ js ''. Use '' @ [0x2318] @
     js ''/Ctrl+J to toggle.''"

definition reply_a11y :: jsstring where
  "reply_a11y = js ''This UI uses roles, labels, focus states, and high contrast support.''"

definition slash_reply :: "(jsstring \<Rightarrow> jsstring) \<Rightarrow> Theme \<Rightarrow> jsstring \<Rightarrow> jsstring" where
  \<comment> \<open>the value of \<open>reply\<close> after the slash-command block; \<open>lc\<close> is \<open>toLowerCase\<close>\<close>
  "slash_reply lc th text =
     (let reply = reply_default in
      if startsWith text (js ''/'') then
        let cmd = lc (trim (slice_from 1 text));
            reply = (if cmd = js ''help'' then reply_help else reply);
            reply = (if cmd = js ''shortcuts'' then reply_shortcuts else reply);
            reply = (if cmd = js ''theme'' then reply_theme th else reply);
            reply = (if cmd = js ''a11y'' then reply_a11y else reply)
        in reply
      else reply)"

definition handleSend_start :: "Env \<Rightarrow> jsstring \<Rightarrow> State \<Rightarrow> State" where
  \<comment> \<open>\<open>handleSend\<close> up to its first \<open>await\<close>\<close>
  "handleSend_start env text s =
     (let i = randomUUID env;
          newMsg = \<lparr>msg_id = i, sender = User, msg_text = text, time = timeNow env,
                    status = Some Sending, attachments = None\<rparr>
      in s\<lparr>messages := messages s @ [newMsg],
           pending := pending s @
             [\<lparr>flow_id = i, flow_text = text, flow_theme = theme s, flow_stage = Wait400\<rparr>]\<rparr>)"

definition handleSend_resume ::
  "(jsstring \<Rightarrow> jsstring) \<Rightarrow> Env \<Rightarrow> nat \<Rightarrow> State \<Rightarrow> State" where
  \<comment> \<open>the timer of the \<open>n\<close>-th call in flight fires: \<open>handleSend\<close> runs from the
      \<open>await\<close> it is suspended at to the next one (or to its end)\<close>
  "handleSend_resume lc env n s =
     (if n < length (pending s) then
        let f = pending s ! n; i = flow_id f in
        case flow_stage f of
          Wait400 \<Rightarrow>
            s\<lparr>messages := map (set_status i Sent) (messages s),
              pending := (pending s)[n := f\<lparr>flow_stage := Wait300\<rparr>]\<rparr>
        | Wait300 \<Rightarrow>
            s\<lparr>messages := map (set_status i Delivered) (messages s),
              typing := True,
              pending := (pending s)[n := f\<lparr>flow_stage := Wait700\<rparr>]\<rparr>
        | Wait700 \<Rightarrow>
            s\<lparr>pending := (pending s)
                [n := f\<lparr>flow_stage := Wait600 (slash_reply lc (flow_theme f) (flow_text f))\<rparr>]\<rparr>
        | Wait600 reply \<Rightarrow>
            s\<lparr>typing := False,
              messages := map (set_status i Read) (messages s) @
                [\<lparr>msg_id = randomUUID env, sender = Bot, msg_text = reply, time = clock env,
                  status = None, attachments = None\<rparr>],
              pending := take n (pending s) @ drop (Suc n) (pending s)\<rparr>
      else s)"

definition send :: "Env \<Rightarrow> State \<Rightarrow> State" where
  \<comment> \<open>\<open>MessageInput.send\<close> with \<open>onSend = handleSend\<close>; \<open>!text\<close> holds of the empty
      string only\<close>
  "send env s =
     (let text = trim (input_value s)
      in if text = [] then s
         else (handleSend_start env text s)\<lparr>input_value := [], rows := 1\<rparr>)"

definition textarea_onKeyDown :: "Env \<Rightarrow> KeyEvent \<Rightarrow> State \<Rightarrow> State" where
  "textarea_onKeyDown env e s =
     (if key e = js ''Enter'' \<and> \<not> shiftKey e then send env s else s)"

subsection \<open>The root component\<close>

definition toggle_theme :: "Theme \<Rightarrow> Theme" where
  \<comment> \<open>\<open>(t) => (t === "light" ? "dark" : "light")\<close>\<close>
  "toggle_theme t = (if t = Light then Dark else Light)"

definition onKey :: "(jsstring \<Rightarrow> jsstring) \<Rightarrow> KeyEvent \<Rightarrow> State \<Rightarrow> State" where
  \<comment> \<open>the window's keydown listener; its Ctrl/Cmd+K branch only calls \<open>alert\<close>\<close>
  "onKey lc e s =
     (if (ctrlKey e \<or> metaKey e) \<and> lc (key e) = js ''j''
      then s\<lparr>theme := toggle_theme (theme s)\<rparr> else s)"

definition attach_demo :: "Env \<Rightarrow> State \<Rightarrow> State" where
  "attach_demo env s =
     s\<lparr>messages := messages s @
        [\<lparr>msg_id = randomUUID env, sender = User,
          msg_text = js ''Here are the brand assets.'', time = clock env,
          status = Some Read,
          attachments = Some
            [\<lparr>att_type = ImageAtt, att_name = js ''logo@2x.png''\<rparr>,
             \<lparr>att_type = FileAtt,
              att_name = js ''brand'' @ [0x2011] @ js ''guidelines.pdf''\<rparr>]\<rparr>]\<rparr>"

datatype Event =
    Change jsstring  \<comment> \<open>the textarea's \<open>onChange\<close> with its new value\<close>
  | ClickSend
  | TextareaKeyDown KeyEvent
  | WindowKeyDown KeyEvent
  | ClickThemeToggle
  | ClickSettings
  | CloseSettings
  | ClickThread Thread  \<comment> \<open>the \<open>ThreadItem\<close> rendered for this thread\<close>
  | ClickClear
  | ClickAttach
  | Timer nat  \<comment> \<open>the pending \<open>wait\<close> of the \<open>n\<close>-th call in flight resolves\<close>

fun step :: "(jsstring \<Rightarrow> jsstring) \<Rightarrow> Env \<Rightarrow> Event \<Rightarrow> State \<Rightarrow> State" where
  "step lc env (Change v) s = handleChange v s"
| "step lc env ClickSend s = send env s"
| "step lc env (TextareaKeyDown e) s = textarea_onKeyDown env e s"
| "step lc env (WindowKeyDown e) s = onKey lc e s"
| "step lc env ClickThemeToggle s = s\<lparr>theme := toggle_theme (theme s)\<rparr>"
| "step lc env ClickSettings s = s\<lparr>showSettings := \<not> showSettings s\<rparr>"
| "step lc env CloseSettings s = s\<lparr>showSettings := False\<rparr>"
| "step lc env (ClickThread t) s = s\<lparr>activeThread := thread_id t\<rparr>"
| "step lc env ClickClear s = s\<lparr>messages := []\<rparr>"
| "step lc env ClickAttach s = attach_demo env s"
| "step lc env (Timer n) s = handleSend_resume lc env n s"

text \<open>
  \<open>crypto.randomUUID()\<close> returns an identifier in use nowhere else: here, one that no
  message of the list and no call in flight holds. A run is a list of events, each with
  what the runtime hands to it; it is \<open>None\<close> when an identifier repeats.
\<close>

definition uuid_fresh :: "jsstring \<Rightarrow> State \<Rightarrow> bool" where
  "uuid_fresh u s \<longleftrightarrow>
     u \<notin> set (map msg_id (messages s)) \<and> u \<notin> set (map flow_id (pending s))"

fun run :: "(jsstring \<Rightarrow> jsstring) \<Rightarrow> (Env \<times> Event) list \<Rightarrow> State \<Rightarrow> State option" where
  "run lc [] s = Some s"
| "run lc ((env, ev) # rest) s =
     (if uuid_fresh (randomUUID env) s then run lc rest (step lc env ev s) else None)"

subsection \<open>What is rendered\<close>

datatype View = BubbleV Message | TypingV | EmptyStateV

definition scroll_area :: "State \<Rightarrow> View list" where
  \<comment> \<open>the children of the scroll area: the bubbles, \<open>typing && ...\<close>,
      \<open>!messages.length && <EmptyState />\<close>\<close>
  "scroll_area s =
     map BubbleV (messages s) @
     (if typing s then [TypingV] else []) @
     (if length (messages s) = 0 then [EmptyStateV] else [])"

definition sidebar_threads :: "State \<Rightarrow> (Thread \<times> bool) list" where
  \<comment> \<open>the \<open>ThreadItem\<close>s of the sidebar, each with its \<open>active\<close> flag\<close>
  "sidebar_threads s = map (\<lambda>t. (t, thread_id t = activeThread s)) demoThreads"

section \<open>Notions used by the properties\<close>

definition timers4 ::
  "(jsstring \<Rightarrow> jsstring) \<Rightarrow> Env \<Rightarrow> Env \<Rightarrow> Env \<Rightarrow> Env \<Rightarrow> nat \<Rightarrow> State \<Rightarrow> State" where
  \<comment> \<open>the four timers of the call at index \<open>n\<close> resolve in turn, with no other handler
      in between\<close>
  "timers4 lc e1 e2 e3 e4 n s =
     step lc e4 (Timer n) (step lc e3 (Timer n) (step lc e2 (Timer n) (step lc e1 (Timer n) s)))"

definition send_chain ::
  "(jsstring \<Rightarrow> jsstring) \<Rightarrow> Env \<Rightarrow> Env \<Rightarrow> Env \<Rightarrow> Env \<Rightarrow> Env \<Rightarrow> State \<Rightarrow> State" where
  \<comment> \<open>a click on Send, then the whole delay chain of that call\<close>
  "send_chain lc e0 e1 e2 e3 e4 s =
     timers4 lc e1 e2 e3 e4 (length (pending s)) (step lc e0 ClickSend s)"

fun status_rank :: "MsgStatus \<Rightarrow> nat" where
  "status_rank Sending = 0"
| "status_rank Sent = 1"
| "status_rank Delivered = 2"
| "status_rank Read = 3"

definition status_advances :: "MsgStatus option \<Rightarrow> MsgStatus option \<Rightarrow> bool" where
  \<comment> \<open>the status stays, or moves to the next one of sending, sent, delivered, read\<close>
  "status_advances a b =
     (case a of
        None \<Rightarrow> b = None
      | Some x \<Rightarrow>
          (case b of
             None \<Rightarrow> False
           | Some y \<Rightarrow> status_rank y = status_rank x \<or> status_rank y = Suc (status_rank x)))"

definition statuses_advance :: "Message list \<Rightarrow> Message list \<Rightarrow> bool" where
  \<comment> \<open>from the list before a step to the list after it: either the list was cleared, or
      every message is still at its place, with the same identifier and a status that
      stayed or moved one forward\<close>
  "statuses_advance ms ms' \<longleftrightarrow>
     ms' = [] \<or>
     list_all2 (\<lambda>m m'. msg_id m' = msg_id m \<and> status_advances (status m) (status m'))
       ms (take (length ms) ms')"

definition flow_status :: "Stage \<Rightarrow> MsgStatus" where
  \<comment> \<open>the status the message of a call has while the call is suspended at this stage\<close>
  "flow_status st =
     (case st of Wait400 \<Rightarrow> Sending | Wait300 \<Rightarrow> Sent | Wait700 \<Rightarrow> Delivered
      | Wait600 r \<Rightarrow> Delivered)"

definition bot_unmarked :: "Message list \<Rightarrow> bool" where
  "bot_unmarked ms \<longleftrightarrow> (\<forall>m\<in>set ms. sender m = Bot \<longrightarrow> status m = None)"

definition flows_tracked :: "SendFlow list \<Rightarrow> Message list \<Rightarrow> bool" where
  "flows_tracked fs ms \<longleftrightarrow>
     (\<forall>f\<in>set fs. \<forall>m\<in>set ms. msg_id m = flow_id f \<longrightarrow>
        sender m = User \<and> status m = Some (flow_status (flow_stage f)))"

definition consistent :: "State \<Rightarrow> bool" where
  \<comment> \<open>the invariant of the runs: bot messages carry no status, the message of a call in
      flight is the user's and has the status of the call's stage, and the calls in flight
      have different identifiers\<close>
  "consistent s \<longleftrightarrow>
     bot_unmarked (messages s) \<and> flows_tracked (pending s) (messages s) \<and>
     distinct (map flow_id (pending s))"

definition reads_runtime :: "Event \<Rightarrow> State \<Rightarrow> bool" where
  \<comment> \<open>the handler of this event, in this state, calls \<open>crypto.randomUUID()\<close> or reads
      the time\<close>
  "reads_runtime ev s =
     (case ev of
        ClickSend \<Rightarrow> trim (input_value s) \<noteq> []
      | TextareaKeyDown e \<Rightarrow>
          key e = js ''Enter'' \<and> \<not> shiftKey e \<and> trim (input_value s) \<noteq> []
      | ClickAttach \<Rightarrow> True
      | Timer n \<Rightarrow>
          n < length (pending s) \<and>
          (case flow_stage (pending s ! n) of Wait600 r \<Rightarrow> True | _ \<Rightarrow> False)
      | _ \<Rightarrow> False)"

definition content :: "Message \<Rightarrow> Sender \<times> jsstring \<times> MsgStatus option \<times> Attachment list option" where
  \<comment> \<open>a message without its identifier and its time\<close>
  "content m = (sender m, msg_text m, status m, attachments m)"

fun addressed :: "jsstring \<Rightarrow> Event \<Rightarrow> State \<Rightarrow> bool" where
  \<comment> \<open>the event is a timer of the call with identifier \<open>u\<close>\<close>
  "addressed u (Timer n) s \<longleftrightarrow> n < length (pending s) \<and> flow_id (pending s ! n) = u"
| "addressed u ev s \<longleftrightarrow> False"

fun exec :: "(jsstring \<Rightarrow> jsstring) \<Rightarrow> (Env \<times> Event) list \<Rightarrow> State \<Rightarrow> State" where
  \<comment> \<open>the state after a list of events, each with what the runtime hands to it\<close>
  "exec lc [] s = s"
| "exec lc ((env, ev) # rest) s = exec lc rest (step lc env ev s)"

fun timers_fired :: "(jsstring \<Rightarrow> jsstring) \<Rightarrow> jsstring \<Rightarrow> (Env \<times> Event) list \<Rightarrow> State \<Rightarrow> nat" where
  \<comment> \<open>how many events of the list are timers of the call \<open>u\<close>\<close>
  "timers_fired lc u [] s = 0"
| "timers_fired lc u ((env, ev) # rest) s =
     (if addressed u ev s then 1 else 0) + timers_fired lc u rest (step lc env ev s)"

fun added_by :: "(jsstring \<Rightarrow> jsstring) \<Rightarrow> jsstring \<Rightarrow> (Env \<times> Event) list \<Rightarrow> State \<Rightarrow> Message list" where
  \<comment> \<open>the messages that the timers of the call \<open>u\<close> append along the list\<close>
  "added_by lc u [] s = []"
| "added_by lc u ((env, ev) # rest) s =
     (if addressed u ev s then drop (length (messages s)) (messages (step lc env ev s)) else []) @
     added_by lc u rest (step lc env ev s)"

definition stage_after :: "(jsstring \<Rightarrow> jsstring) \<Rightarrow> Theme \<Rightarrow> jsstring \<Rightarrow> nat \<Rightarrow> Stage" where
  \<comment> \<open>the stage of a call after \<open>k\<close> of its timers\<close>
  "stage_after lc th x k =
     (if k = 0 then Wait400 else if k = 1 then Wait300 else if k = 2 then Wait700
      else Wait600 (slash_reply lc th x))"

definition tracked :: "(jsstring \<Rightarrow> jsstring) \<Rightarrow> jsstring \<Rightarrow> jsstring \<Rightarrow> Theme \<Rightarrow> nat \<Rightarrow> SendFlow list \<Rightarrow> bool" where
  \<comment> \<open>after \<open>k\<close> of its timers, the call \<open>u\<close> is in flight once, with its text, theme and
      stage, or (from the fourth on) no longer in flight\<close>
  "tracked lc u x th k ps \<longleftrightarrow>
     filter (\<lambda>f. flow_id f = u) ps =
       (if k < 4 then [\<lparr>flow_id = u, flow_text = x, flow_theme = th,
                        flow_stage = stage_after lc th x k\<rparr>] else [])"

definition without_status :: "Message \<Rightarrow> Message" where
  \<comment> \<open>a message without its status\<close>
  "without_status m = m\<lparr>status := None\<rparr>"

definition blank_ids :: "Message \<Rightarrow> Message" where
  \<comment> \<open>a message with its identifier and time erased\<close>
  "blank_ids m = m\<lparr>msg_id := [], time := []\<rparr>"

definition blank_flow :: "SendFlow \<Rightarrow> SendFlow" where
  \<comment> \<open>a call in flight with its identifier erased\<close>
  "blank_flow f = f\<lparr>flow_id := []\<rparr>"

definition erase_created :: "State \<Rightarrow> State \<Rightarrow> State" where
  \<comment> \<open>the state \<open>s'\<close> after a step from \<open>s\<close>, with the identifier and time of the
      messages the step created and the identifier of the call it started erased\<close>
  "erase_created s s' =
     s'\<lparr>messages := take (length (messages s)) (messages s') @
                     map blank_ids (drop (length (messages s)) (messages s')),
        pending := take (length (pending s)) (pending s') @
                     map blank_flow (drop (length (pending s)) (pending s'))\<rparr>"

definition runtime_values_read :: "Event \<Rightarrow> State \<Rightarrow> Env \<Rightarrow> jsstring list" where
  \<comment> \<open>the values of the runtime that the handler of this event reads in this state\<close>
  "runtime_values_read ev s e =
     (case ev of
        ClickSend \<Rightarrow> if trim (input_value s) \<noteq> [] then [randomUUID e, timeNow e] else []
      | TextareaKeyDown k \<Rightarrow>
          if key k = js ''Enter'' \<and> \<not> shiftKey k \<and> trim (input_value s) \<noteq> []
          then [randomUUID e, timeNow e] else []
      | ClickAttach \<Rightarrow> [randomUUID e, clock e]
      | Timer n \<Rightarrow>
          if n < length (pending s) \<and>
             (case flow_stage (pending s ! n) of Wait600 r \<Rightarrow> True | _ \<Rightarrow> False)
          then [randomUUID e, clock e] else []
      | _ \<Rightarrow> [])"

text \<open>Concrete inputs, for evaluating the properties.\<close>

definition env_a :: Env where
  "env_a = \<lparr>randomUUID = js ''0b9c7a52-6f0e-4c1d-9a55-2f1f3c8e7d10'', timeNow = js ''10:05'',
            clock = js ''10:05''\<rparr>"

definition env_b :: Env where
  "env_b = \<lparr>randomUUID = js ''e41d3b60-8a27-4f5b-b3c9-71d2a6f09c44'', timeNow = js ''10:05'',
            clock = js ''10:06''\<rparr>"

definition typed_state :: State where
  "typed_state = step toLowerCase_ascii env_a (Change (js '' /Help '')) initial_state"

definition sent_state :: State where
  "sent_state = step toLowerCase_ascii env_a ClickSend typed_state"

definition demo_trace :: "(Env \<times> Event) list" where
  "demo_trace =
     [(env_a, Change (js '' /Help '')), (env_a, ClickSend),
      (env_b, Timer 0), (env_b, Timer 0), (env_b, Timer 0), (env_b, Timer 0)]"

definition replied_state :: State where
  "replied_state = send_chain toLowerCase_ascii env_a env_b env_b env_b env_b typed_state"

definition env_c :: Env where
  "env_c = \<lparr>randomUUID = js ''7a1f0c9e-2d44-4b8a-8e61-0c5d9b3a4f27'', timeNow = js ''10:05'',
            clock = js ''10:05''\<rparr>"

definition env_d :: Env where
  "env_d = \<lparr>randomUUID = js ''c2e8f5d1-93b7-4a06-b1d8-5e4f7a6b8c90'', timeNow = js ''10:06'',
            clock = js ''10:06''\<rparr>"

definition overlap_trace :: "(Env \<times> Event) list" where
  "overlap_trace =
     [(env_c, Change (js ''/a11y'')), (env_c, ClickSend), (env_b, ClickThemeToggle),
      (env_b, Timer 0), (env_b, Timer 1), (env_b, Timer 0), (env_b, Timer 0), (env_b, Timer 0),
      (env_d, Timer 0)]"

section \<open>Auxiliary lemmas\<close>

subsection \<open>Trimming\<close>

lemma dropWhile_rev_dropWhile_Nil:
  "dropWhile P (rev (dropWhile P s)) = [] \<longleftrightarrow> dropWhile P s = []"
proof
  assume a: "dropWhile P (rev (dropWhile P s)) = []"
  show "dropWhile P s = []"
  proof (rule ccontr)
    assume n: "dropWhile P s \<noteq> []"
    then have "\<not> P (hd (dropWhile P s))" by (rule hd_dropWhile)
    moreover from n have "hd (dropWhile P s) \<in> set (rev (dropWhile P s))" by simp
    ultimately show False using a by (auto simp: dropWhile_eq_Nil_conv)
  qed
next
  assume "dropWhile P s = []"
  then show "dropWhile P (rev (dropWhile P s)) = []" by (simp del: dropWhile_eq_Nil_conv)
qed

lemma trim_nil_iff: "trim s = [] \<longleftrightarrow> (\<forall>c\<in>set s. is_trim_space c)"
  unfolding trim_def rev_is_Nil_conv dropWhile_rev_dropWhile_Nil by (rule dropWhile_eq_Nil_conv)

subsection \<open>The invariant of the runs\<close>

lemma consistent_initial: "consistent initial_state"
  by (simp add: consistent_def bot_unmarked_def flows_tracked_def initial_state_def introMessages_def)

lemma fresh_msg: "u \<notin> msg_id ` set ms \<Longrightarrow> m \<in> set ms \<Longrightarrow> msg_id m \<noteq> u"
  by auto

lemma fresh_flow: "u \<notin> flow_id ` set fs \<Longrightarrow> f \<in> set fs \<Longrightarrow> flow_id f \<noteq> u"
  by auto

lemma consistent_start:
  assumes "consistent s" "uuid_fresh (randomUUID env) s"
  shows "consistent (handleSend_start env text s)"
  using assms
  unfolding consistent_def bot_unmarked_def flows_tracked_def uuid_fresh_def handleSend_start_def Let_def
  by (auto simp: flow_status_def dest: fresh_msg fresh_flow)

lemma consistent_attach:
  assumes "consistent s" "uuid_fresh (randomUUID env) s"
  shows "consistent (attach_demo env s)"
  using assms
  unfolding consistent_def bot_unmarked_def flows_tracked_def uuid_fresh_def attach_demo_def
  by (auto dest: fresh_msg fresh_flow)

lemma consistent_frame:
  "messages s' = messages s \<Longrightarrow> pending s' = pending s \<Longrightarrow> consistent s' = consistent s"
  by (simp add: consistent_def)

lemma others_after_removal:
  assumes "distinct (map flow_id ps)" "n < length ps" "g \<in> set (take n ps @ drop (Suc n) ps)"
  shows "g \<in> set ps \<and> flow_id g \<noteq> flow_id (ps ! n)"
proof -
  have split: "ps = take n ps @ ps ! n # drop (Suc n) ps"
    using assms(2) by (rule id_take_nth_drop)
  have "distinct (map flow_id (take n ps @ ps ! n # drop (Suc n) ps))"
    using assms(1) split by simp
  then have "flow_id (ps ! n) \<notin> flow_id ` set (take n ps @ drop (Suc n) ps)"
    by auto
  moreover have "g \<in> set ps"
    using assms(3) by (auto dest: in_set_takeD in_set_dropD)
  moreover have "flow_id g \<in> flow_id ` set (take n ps @ drop (Suc n) ps)"
    using assms(3) by (rule imageI)
  ultimately show ?thesis by metis
qed

lemma others_after_update:
  assumes "distinct (map flow_id ps)" "n < length ps" "g \<in> set (ps[n := f'])"
  shows "g = f' \<or> (g \<in> set ps \<and> flow_id g \<noteq> flow_id (ps ! n))"
proof -
  have "ps[n := f'] = take n ps @ f' # drop (Suc n) ps"
    using assms(2) by (rule upd_conv_take_nth_drop)
  then have "g = f' \<or> g \<in> set (take n ps @ drop (Suc n) ps)"
    using assms(3) by auto
  then show ?thesis
    using others_after_removal [OF assms(1,2)] by blast
qed

lemma ids_after_update:
  assumes "n < length ps" "flow_id f' = flow_id (ps ! n)"
  shows "map flow_id (ps[n := f']) = map flow_id ps"
  using assms by (simp add: map_update list_update_same_conv)

lemma ids_after_removal:
  assumes "distinct (map flow_id ps)"
  shows "distinct (map flow_id (take n ps @ drop (Suc n) ps))"
proof (cases "n < length ps")
  case True
  then have "ps = take n ps @ ps ! n # drop (Suc n) ps"
    by (rule id_take_nth_drop)
  then have "distinct (map flow_id (take n ps @ ps ! n # drop (Suc n) ps))"
    using assms by simp
  then show ?thesis by auto
next
  case False
  then show ?thesis using assms by simp
qed

lemma set_status_fields [simp]:
  "msg_id (set_status i st m) = msg_id m"
  "sender (set_status i st m) = sender m"
  "msg_text (set_status i st m) = msg_text m"
  "time (set_status i st m) = time m"
  "attachments (set_status i st m) = attachments m"
  "status (set_status i st m) = (if msg_id m = i then Some st else status m)"
  by (simp_all add: set_status_def)

lemma bot_unmarked_mark:
  assumes "bot_unmarked ms" "flows_tracked ps ms" "f \<in> set ps"
  shows "bot_unmarked (map (set_status (flow_id f) st) ms)"
  using assms unfolding bot_unmarked_def flows_tracked_def by fastforce

lemma flows_tracked_mark:
  assumes "flows_tracked ps ms" "distinct (map flow_id ps)" "n < length ps"
    and "flow_id f' = flow_id (ps ! n)" "flow_status (flow_stage f') = st"
  shows "flows_tracked (ps[n := f']) (map (set_status (flow_id (ps ! n)) st) ms)"
  unfolding flows_tracked_def
proof (intro ballI impI)
  fix g m assume g: "g \<in> set (ps[n := f'])"
    and m: "m \<in> set (map (set_status (flow_id (ps ! n)) st) ms)"
    and eq: "msg_id m = flow_id g"
  from m obtain m0 where m0: "m0 \<in> set ms" "m = set_status (flow_id (ps ! n)) st m0"
    by auto
  have fn: "ps ! n \<in> set ps" using assms(3) by simp
  from others_after_update [OF assms(2,3) g]
  show "sender m = User \<and> status m = Some (flow_status (flow_stage g))"
  proof
    assume "g = f'"
    with eq m0 assms(4,5) fn assms(1) show ?thesis
      unfolding flows_tracked_def by auto
  next
    assume "g \<in> set ps \<and> flow_id g \<noteq> flow_id (ps ! n)"
    with eq m0 assms(1) show ?thesis
      unfolding flows_tracked_def by auto
  qed
qed

lemma consistent_mark:
  assumes "consistent s" "n < length (pending s)"
    and "flow_id f' = flow_id (pending s ! n)" "flow_status (flow_stage f') = st"
    and "messages s' = map (set_status (flow_id (pending s ! n)) st) (messages s)"
    and "pending s' = (pending s)[n := f']"
  shows "consistent s'"
proof -
  have "pending s ! n \<in> set (pending s)" using assms(2) by simp
  then have "bot_unmarked (map (set_status (flow_id (pending s ! n)) st) (messages s))"
    using assms(1) by (intro bot_unmarked_mark [where ps = "pending s"]) (simp_all add: consistent_def)
  then have "bot_unmarked (messages s')"
    using assms(5) by simp
  moreover have "flows_tracked (pending s') (messages s')"
    using assms flows_tracked_mark unfolding consistent_def by simp
  moreover have "distinct (map flow_id (pending s'))"
    using assms(1,2,3,6) by (simp add: ids_after_update consistent_def)
  ultimately show ?thesis by (simp add: consistent_def)
qed

lemma consistent_restage:
  assumes "consistent s" "n < length (pending s)"
    and "flow_id f' = flow_id (pending s ! n)"
    and "flow_status (flow_stage f') = flow_status (flow_stage (pending s ! n))"
    and "messages s' = messages s" "pending s' = (pending s)[n := f']"
  shows "consistent s'"
  unfolding consistent_def
proof (intro conjI)
  show "bot_unmarked (messages s')" using assms(1,5) by (simp add: consistent_def)
  show "distinct (map flow_id (pending s'))"
    using assms(1,2,3,6) by (simp add: ids_after_update consistent_def)
  have d: "distinct (map flow_id (pending s))" and t: "flows_tracked (pending s) (messages s)"
    using assms(1) by (simp_all add: consistent_def)
  have fn: "pending s ! n \<in> set (pending s)" using assms(2) by simp
  show "flows_tracked (pending s') (messages s')"
    unfolding flows_tracked_def assms(5,6)
  proof (intro ballI impI)
    fix g m assume g: "g \<in> set ((pending s)[n := f'])" and m: "m \<in> set (messages s)"
      and eq: "msg_id m = flow_id g"
    from others_after_update [OF d assms(2) g]
    show "sender m = User \<and> status m = Some (flow_status (flow_stage g))"
      using t fn m eq assms(3,4) unfolding flows_tracked_def by auto
  qed
qed

lemma consistent_finish:
  assumes "consistent s" "n < length (pending s)" "uuid_fresh u s"
    and "messages s' = map (set_status (flow_id (pending s ! n)) st) (messages s) @
           [\<lparr>msg_id = u, sender = Bot, msg_text = r, time = c, status = None, attachments = None\<rparr>]"
    and "pending s' = take n (pending s) @ drop (Suc n) (pending s)"
  shows "consistent s'"
  unfolding consistent_def
proof (intro conjI)
  have d: "distinct (map flow_id (pending s))" and t: "flows_tracked (pending s) (messages s)"
    and b: "bot_unmarked (messages s)"
    using assms(1) by (simp_all add: consistent_def)
  have fn: "pending s ! n \<in> set (pending s)" using assms(2) by simp
  have "bot_unmarked (map (set_status (flow_id (pending s ! n)) st) (messages s))"
    using b t fn by (rule bot_unmarked_mark)
  then show "bot_unmarked (messages s')"
    unfolding assms(4) bot_unmarked_def by auto
  show "distinct (map flow_id (pending s'))"
    unfolding assms(5) using d by (rule ids_after_removal)
  show "flows_tracked (pending s') (messages s')"
    unfolding flows_tracked_def assms(4,5)
  proof (intro ballI impI)
    fix g m
    assume g: "g \<in> set (take n (pending s) @ drop (Suc n) (pending s))"
      and m: "m \<in> set (map (set_status (flow_id (pending s ! n)) st) (messages s) @
           [\<lparr>msg_id = u, sender = Bot, msg_text = r, time = c, status = None, attachments = None\<rparr>])"
      and eq: "msg_id m = flow_id g"
    from others_after_removal [OF d assms(2) g]
    have g': "g \<in> set (pending s)" "flow_id g \<noteq> flow_id (pending s ! n)" by simp_all
    from g' assms(3) have "flow_id g \<noteq> u"
      unfolding uuid_fresh_def by auto
    with m eq obtain m0 where "m0 \<in> set (messages s)"
       "m = set_status (flow_id (pending s ! n)) st m0"
      by auto
    with g' eq t show "sender m = User \<and> status m = Some (flow_status (flow_stage g))"
      unfolding flows_tracked_def by auto
  qed
qed

lemma consistent_resume:
  assumes "consistent s" "uuid_fresh (randomUUID env) s"
  shows "consistent (handleSend_resume lc env n s)"
proof (cases "n < length (pending s)")
  case False
  then show ?thesis using assms(1) by (simp add: handleSend_resume_def)
next
  case True
  show ?thesis
  proof (cases "flow_stage (pending s ! n)")
    case Wait400
    show ?thesis
      by (rule consistent_mark [OF assms(1) True, where st = Sent and f' = "(pending s ! n)\<lparr>flow_stage := Wait300\<rparr>"])
         (simp_all add: handleSend_resume_def Let_def True Wait400 flow_status_def)
  next
    case Wait300
    show ?thesis
      by (rule consistent_mark [OF assms(1) True, where st = Delivered and f' = "(pending s ! n)\<lparr>flow_stage := Wait700\<rparr>"])
         (simp_all add: handleSend_resume_def Let_def True Wait300 flow_status_def)
  next
    case Wait700
    show ?thesis
      by (rule consistent_restage [OF assms(1) True,
            where f' = "(pending s ! n)\<lparr>flow_stage := Wait600 (slash_reply lc (flow_theme (pending s ! n)) (flow_text (pending s ! n)))\<rparr>"])
         (simp_all add: handleSend_resume_def Let_def True Wait700 flow_status_def)
  next
    case (Wait600 r)
    show ?thesis
      by (rule consistent_finish [OF assms(1) True assms(2), where st = Read and r = r and c = "clock env"])
         (simp_all add: handleSend_resume_def Let_def True Wait600)
  qed
qed

lemma consistent_send:
  assumes "consistent s" "uuid_fresh (randomUUID env) s"
  shows "consistent (send env s)"
proof (cases "trim (input_value s) = []")
  case True
  then show ?thesis using assms(1) by (simp add: send_def)
next
  case False
  have "consistent (handleSend_start env (trim (input_value s)) s)"
    using assms by (rule consistent_start)
  moreover have "consistent ((handleSend_start env (trim (input_value s)) s)\<lparr>input_value := [], rows := 1\<rparr>)
      = consistent (handleSend_start env (trim (input_value s)) s)"
    by (rule consistent_frame) simp_all
  ultimately show ?thesis using False by (simp add: send_def)
qed

lemma consistent_step:
  assumes "consistent s" "uuid_fresh (randomUUID env) s"
  shows "consistent (step lc env ev s)"
proof (cases ev)
  case ClickSend
  then show ?thesis using assms by (simp add: consistent_send)
next
  case (TextareaKeyDown e)
  then show ?thesis using assms by (simp add: textarea_onKeyDown_def consistent_send)
next
  case ClickAttach
  then show ?thesis using assms by (simp add: consistent_attach)
next
  case (Timer n)
  then show ?thesis using assms by (simp add: consistent_resume)
next
  case ClickClear
  then show ?thesis using assms(1)
    by (simp add: consistent_def bot_unmarked_def flows_tracked_def)
next
  case (Change v)
  then show ?thesis using assms(1) by (simp add: handleChange_def consistent_def)
next
  case (WindowKeyDown e)
  then show ?thesis using assms(1) by (simp add: onKey_def consistent_def)
qed (use assms(1) in \<open>simp_all add: consistent_def\<close>)

lemma consistent_run:
  "consistent s \<Longrightarrow> run lc tr s = Some s' \<Longrightarrow> consistent s'"
proof (induction tr arbitrary: s)
  case Nil
  then show ?case by simp
next
  case (Cons a tr)
  obtain env ev where a: "a = (env, ev)" by (cases a)
  with Cons.prems(2) have f: "uuid_fresh (randomUUID env) s"
    and r: "run lc tr (step lc env ev s) = Some s'"
    by (simp_all split: if_splits)
  from Cons.prems(1) f have "consistent (step lc env ev s)" by (rule consistent_step)
  then show ?case using r by (rule Cons.IH)
qed

lemma split_on_length: "length (split_on sep v) = Suc (length (filter (\<lambda>c. c = sep) v))"
  by (induction v) (auto split: list.splits)

subsection \<open>The delay chain of a send\<close>

lemma resume_Wait400:
  assumes "n < length (pending s)" "flow_stage (pending s ! n) = Wait400"
  shows "handleSend_resume lc env n s =
    s\<lparr>messages := map (set_status (flow_id (pending s ! n)) Sent) (messages s),
      pending := (pending s)[n := (pending s ! n)\<lparr>flow_stage := Wait300\<rparr>]\<rparr>"
  using assms by (simp add: handleSend_resume_def Let_def)

lemma resume_Wait300:
  assumes "n < length (pending s)" "flow_stage (pending s ! n) = Wait300"
  shows "handleSend_resume lc env n s =
    s\<lparr>messages := map (set_status (flow_id (pending s ! n)) Delivered) (messages s),
      typing := True,
      pending := (pending s)[n := (pending s ! n)\<lparr>flow_stage := Wait700\<rparr>]\<rparr>"
  using assms by (simp add: handleSend_resume_def Let_def)

lemma resume_Wait700:
  assumes "n < length (pending s)" "flow_stage (pending s ! n) = Wait700"
  shows "handleSend_resume lc env n s =
    s\<lparr>pending := (pending s)[n := (pending s ! n)
        \<lparr>flow_stage := Wait600 (slash_reply lc (flow_theme (pending s ! n)) (flow_text (pending s ! n)))\<rparr>]\<rparr>"
  using assms by (simp add: handleSend_resume_def Let_def)

lemma resume_Wait600:
  assumes "n < length (pending s)" "flow_stage (pending s ! n) = Wait600 r"
  shows "handleSend_resume lc env n s =
    s\<lparr>typing := False,
      messages := map (set_status (flow_id (pending s ! n)) Read) (messages s) @
        [\<lparr>msg_id = randomUUID env, sender = Bot, msg_text = r, time = clock env,
          status = None, attachments = None\<rparr>],
      pending := take n (pending s) @ drop (Suc n) (pending s)\<rparr>"
  using assms by (simp add: handleSend_resume_def Let_def)

lemma resume_idle:
  "\<not> n < length (pending s) \<Longrightarrow> handleSend_resume lc env n s = s"
  by (simp add: handleSend_resume_def)

lemma set_status_again [simp]:
  "set_status i st' (set_status i st m) = set_status i st' m"
  by (simp add: set_status_def)

lemma map_set_status_fresh:
  "i \<notin> msg_id ` set ms \<Longrightarrow> map (set_status i st) ms = ms"
  by (induction ms) (auto simp: set_status_def)

lemma timers4_run:
  assumes n: "n < length (pending t)" and st: "flow_stage (pending t ! n) = Wait400"
  shows "timers4 lc e1 e2 e3 e4 n t =
    t\<lparr>typing := False,
      messages := map (set_status (flow_id (pending t ! n)) Read) (messages t) @
        [\<lparr>msg_id = randomUUID e4, sender = Bot,
          msg_text = slash_reply lc (flow_theme (pending t ! n)) (flow_text (pending t ! n)),
          time = clock e4, status = None, attachments = None\<rparr>],
      pending := take n (pending t) @ drop (Suc n) (pending t)\<rparr>"
proof -
  let ?f = "pending t ! n"
  let ?i = "flow_id ?f"
  define t1 where "t1 = step lc e1 (Timer n) t"
  define t2 where "t2 = step lc e2 (Timer n) t1"
  define t3 where "t3 = step lc e3 (Timer n) t2"
  have 1: "t1 = t\<lparr>messages := map (set_status ?i Sent) (messages t),
      pending := (pending t)[n := ?f\<lparr>flow_stage := Wait300\<rparr>]\<rparr>"
    unfolding t1_def using n st by (simp add: resume_Wait400)
  have 2: "t2 = t\<lparr>messages := map (set_status ?i Delivered) (messages t),
      typing := True,
      pending := (pending t)[n := ?f\<lparr>flow_stage := Wait700\<rparr>]\<rparr>"
    unfolding t2_def using n by (simp add: 1 resume_Wait300 comp_def)
  have 3: "t3 = t\<lparr>messages := map (set_status ?i Delivered) (messages t),
      typing := True,
      pending := (pending t)[n := ?f\<lparr>flow_stage := Wait600 (slash_reply lc (flow_theme ?f) (flow_text ?f))\<rparr>]\<rparr>"
    unfolding t3_def using n by (simp add: 2 resume_Wait700)
  have "step lc e4 (Timer n) t3 = t\<lparr>typing := False,
      messages := map (set_status ?i Read) (messages t) @
        [\<lparr>msg_id = randomUUID e4, sender = Bot,
          msg_text = slash_reply lc (flow_theme ?f) (flow_text ?f),
          time = clock e4, status = None, attachments = None\<rparr>],
      pending := take n (pending t) @ drop (Suc n) (pending t)\<rparr>"
    using n by (simp add: 3 resume_Wait600 [where r = "slash_reply lc (flow_theme ?f) (flow_text ?f)"] comp_def)
  then show ?thesis by (simp add: timers4_def t1_def t2_def t3_def)
qed

lemma send_started:
  assumes "trim (input_value s) \<noteq> []"
  shows "send env s =
    s\<lparr>messages := messages s @
        [\<lparr>msg_id = randomUUID env, sender = User, msg_text = trim (input_value s),
          time = timeNow env, status = Some Sending, attachments = None\<rparr>],
      pending := pending s @
        [\<lparr>flow_id = randomUUID env, flow_text = trim (input_value s), flow_theme = theme s,
          flow_stage = Wait400\<rparr>],
      input_value := [], rows := 1\<rparr>"
  using assms by (simp add: send_def handleSend_start_def Let_def)

lemma send_chain_run:
  assumes "trim (input_value s) \<noteq> []"
  shows "send_chain lc e0 e1 e2 e3 e4 s =
    s\<lparr>messages := map (set_status (randomUUID e0) Read) (messages s) @
        [\<lparr>msg_id = randomUUID e0, sender = User, msg_text = trim (input_value s),
          time = timeNow e0, status = Some Read, attachments = None\<rparr>,
         \<lparr>msg_id = randomUUID e4, sender = Bot,
          msg_text = slash_reply lc (theme s) (trim (input_value s)),
          time = clock e4, status = None, attachments = None\<rparr>],
      typing := False, input_value := [], rows := 1\<rparr>"
  unfolding send_chain_def
  by (subst timers4_run) (simp_all add: send_started [OF assms] set_status_def)

subsection \<open>Steps of the delivery status\<close>

lemma status_advances_refl [simp]: "status_advances a a"
  by (cases a) (simp_all add: status_advances_def)

lemma statuses_advance_map:
  assumes "\<forall>m\<in>set ms. status_advances (status m) (status (f m)) \<and> msg_id (f m) = msg_id m"
  shows "statuses_advance ms (map f ms @ ext)"
  using assms by (simp add: statuses_advance_def list_all2_map2 list_all2_same)

lemma statuses_advance_append: "statuses_advance ms (ms @ ext)"
  by (simp add: statuses_advance_def list_all2_same)

lemma statuses_advance_refl: "statuses_advance ms ms"
  using statuses_advance_append [of ms "[]"] by simp

lemma mark_advances:
  assumes "flows_tracked ps ms" "f \<in> set ps"
    and "status_rank st = Suc (status_rank (flow_status (flow_stage f)))"
  shows "\<forall>m\<in>set ms. status_advances (status m) (status (set_status (flow_id f) st m)) \<and>
           msg_id (set_status (flow_id f) st m) = msg_id m"
proof
  fix m assume m: "m \<in> set ms"
  show "status_advances (status m) (status (set_status (flow_id f) st m)) \<and>
           msg_id (set_status (flow_id f) st m) = msg_id m"
  proof (cases "msg_id m = flow_id f")
    case True
    with assms(1,2) m have "status m = Some (flow_status (flow_stage f))"
      unfolding flows_tracked_def by blast
    with True assms(3) show ?thesis by (simp add: status_advances_def)
  next
    case False
    then show ?thesis by simp
  qed
qed

lemma resume_advances:
  assumes "consistent s"
  shows "statuses_advance (messages s) (messages (handleSend_resume lc env n s))"
proof (cases "n < length (pending s)")
  case False
  then show ?thesis by (simp add: resume_idle statuses_advance_refl)
next
  case True
  then have fn: "pending s ! n \<in> set (pending s)" by simp
  have t: "flows_tracked (pending s) (messages s)"
    using assms by (simp add: consistent_def)
  show ?thesis
  proof (cases "flow_stage (pending s ! n)")
    case Wait400
    have "statuses_advance (messages s) (map (set_status (flow_id (pending s ! n)) Sent) (messages s) @ [])"
      by (intro statuses_advance_map mark_advances [OF t fn]) (simp add: Wait400 flow_status_def)
    then show ?thesis using True Wait400 by (simp add: resume_Wait400)
  next
    case Wait300
    have "statuses_advance (messages s) (map (set_status (flow_id (pending s ! n)) Delivered) (messages s) @ [])"
      by (intro statuses_advance_map mark_advances [OF t fn]) (simp add: Wait300 flow_status_def)
    then show ?thesis using True Wait300 by (simp add: resume_Wait300)
  next
    case Wait700
    then show ?thesis using True by (simp add: resume_Wait700 statuses_advance_refl)
  next
    case (Wait600 r)
    have "statuses_advance (messages s) (map (set_status (flow_id (pending s ! n)) Read) (messages s) @
       [\<lparr>msg_id = randomUUID env, sender = Bot, msg_text = r, time = clock env,
          status = None, attachments = None\<rparr>])"
      by (intro statuses_advance_map mark_advances [OF t fn]) (simp add: Wait600 flow_status_def)
    then show ?thesis using True Wait600 by (simp add: resume_Wait600)
  qed
qed

lemma send_advances: "statuses_advance (messages s) (messages (send env s))"
  by (cases "trim (input_value s) = []")
     (simp_all add: send_def handleSend_start_def Let_def statuses_advance_append statuses_advance_refl)

lemma step_advances:
  assumes "consistent s"
  shows "statuses_advance (messages s) (messages (step lc env ev s))"
proof (cases ev)
  case (Timer n)
  then show ?thesis using assms by (simp add: resume_advances)
next
  case ClickClear
  then show ?thesis by (simp add: statuses_advance_def)
qed (simp_all add: send_advances textarea_onKeyDown_def handleChange_def onKey_def attach_demo_def
       statuses_advance_append statuses_advance_refl)

subsection \<open>The concrete runs\<close>

lemma demo_strings:
  "trim (js '' /Help '') = js ''/Help''"
  "slash_reply toLowerCase_ascii Dark (js ''/Help'') = reply_help"
  "js ''/Help'' \<noteq> []"
  "randomUUID env_a \<noteq> randomUUID env_b"
  "randomUUID env_a \<notin> set (map msg_id introMessages)"
  "randomUUID env_b \<notin> set (map msg_id introMessages)"
  by (simp_all add: slash_reply_def startsWith_def slice_from_def js_def trim_def is_trim_space_def
        toLowerCase_ascii_def env_a_def env_b_def introMessages_def)

lemma typed_state_eq: "typed_state = initial_state\<lparr>input_value := js '' /Help ''\<rparr>"
  by (simp add: typed_state_def handleChange_def initial_state_def js_def)

lemma sent_state_eq:
  "sent_state = initial_state
     \<lparr>messages := introMessages @
        [\<lparr>msg_id = randomUUID env_a, sender = User, msg_text = js ''/Help'',
          time = timeNow env_a, status = Some Sending, attachments = None\<rparr>],
      pending := [\<lparr>flow_id = randomUUID env_a, flow_text = js ''/Help'', flow_theme = Dark,
          flow_stage = Wait400\<rparr>]\<rparr>"
  by (simp add: sent_state_def typed_state_eq send_started demo_strings initial_state_def)

lemma replied_state_eq:
  "replied_state = initial_state
     \<lparr>messages := introMessages @
        [\<lparr>msg_id = randomUUID env_a, sender = User, msg_text = js ''/Help'',
          time = timeNow env_a, status = Some Read, attachments = None\<rparr>,
         \<lparr>msg_id = randomUUID env_b, sender = Bot, msg_text = reply_help,
          time = clock env_b, status = None, attachments = None\<rparr>]\<rparr>"
  using demo_strings(5)
  by (simp add: replied_state_def typed_state_eq send_chain_run demo_strings initial_state_def
      map_set_status_fresh)

lemma run_to_sent:
  "run toLowerCase_ascii [(env_a, Change (js '' /Help '')), (env_a, ClickSend)] initial_state = Some sent_state"
  using demo_strings(5)
  by (simp add: uuid_fresh_def sent_state_def typed_state_def handleChange_def initial_state_def)

lemma run_demo_trace: "run toLowerCase_ascii demo_trace initial_state = Some replied_state"
proof -
  have f: "uuid_fresh (randomUUID env_b) sent_state"
    using demo_strings(4,6) by (auto simp: uuid_fresh_def sent_state_eq initial_state_def)
  define t1 where "t1 = step toLowerCase_ascii env_b (Timer 0) sent_state"
  define t2 where "t2 = step toLowerCase_ascii env_b (Timer 0) t1"
  define t3 where "t3 = step toLowerCase_ascii env_b (Timer 0) t2"
  have ids: "map msg_id (messages t1) = map msg_id (messages sent_state)"
            "map msg_id (messages t2) = map msg_id (messages sent_state)"
            "map msg_id (messages t3) = map msg_id (messages sent_state)"
            "map flow_id (pending t1) = map flow_id (pending sent_state)"
            "map flow_id (pending t2) = map flow_id (pending sent_state)"
            "map flow_id (pending t3) = map flow_id (pending sent_state)"
    by (simp_all add: t1_def t2_def t3_def sent_state_eq initial_state_def handleSend_resume_def Let_def comp_def)
  have fr: "uuid_fresh (randomUUID env_b) t1" "uuid_fresh (randomUUID env_b) t2" "uuid_fresh (randomUUID env_b) t3"
    using f by (simp_all add: uuid_fresh_def ids)
  have "replied_state = step toLowerCase_ascii env_b (Timer 0) t3"
    by (simp add: replied_state_def send_chain_def timers4_def t1_def t2_def t3_def sent_state_def typed_state_eq initial_state_def)
  moreover have "run toLowerCase_ascii demo_trace initial_state
      = run toLowerCase_ascii [(env_b, Timer 0), (env_b, Timer 0), (env_b, Timer 0), (env_b, Timer 0)] sent_state"
    using run_to_sent demo_strings(5)
    by (simp add: demo_trace_def uuid_fresh_def sent_state_def typed_state_def handleChange_def initial_state_def)
  ultimately show ?thesis
    using f fr by (simp add: t1_def t2_def t3_def)
qed

lemma sent_state_ticked:
  "messages (step toLowerCase_ascii env_b (Timer 0) sent_state) =
     introMessages @
       [\<lparr>msg_id = randomUUID env_a, sender = User, msg_text = js ''/Help'',
         time = timeNow env_a, status = Some Sent, attachments = None\<rparr>]"
  using demo_strings(5)
  by (simp add: sent_state_eq initial_state_def resume_Wait400 map_set_status_fresh set_status_def)

subsection \<open>Replies\<close>

lemma command_names_differ:
  "js ''help'' \<noteq> js ''shortcuts''" "js ''help'' \<noteq> js ''theme''" "js ''help'' \<noteq> js ''a11y''"
  "js ''shortcuts'' \<noteq> js ''theme''" "js ''shortcuts'' \<noteq> js ''a11y''" "js ''theme'' \<noteq> js ''a11y''"
  by (simp_all add: js_def)

lemma slash_reply_cases:
  "slash_reply lc th text =
     (if startsWith text (js ''/'') then
        (let cmd = lc (trim (slice_from 1 text)) in
         if cmd = js ''help'' then reply_help
         else if cmd = js ''shortcuts'' then reply_shortcuts
         else if cmd = js ''theme'' then reply_theme th
         else if cmd = js ''a11y'' then reply_a11y
         else reply_default)
      else reply_default)"
  using command_names_differ by (simp add: slash_reply_def Let_def)

lemma theme_names_differ: "reply_theme Light \<noteq> reply_theme Dark"
  by (simp add: reply_theme_def theme_name_def js_def)

lemma demo_theme_command:
  "trim (js ''/theme'') = js ''/theme''"
  "js ''/theme'' \<noteq> []"
  "slash_reply toLowerCase_ascii th (js ''/theme'') = reply_theme th"
  by (simp_all add: slash_reply_def startsWith_def slice_from_def js_def trim_def is_trim_space_def
        toLowerCase_ascii_def)

subsection \<open>Values of the runtime\<close>

lemma step_without_runtime:
  assumes "\<not> reads_runtime ev s"
  shows "step lc e1 ev s = step lc e2 ev s"
proof (cases ev)
  case ClickSend
  then show ?thesis using assms by (simp add: reads_runtime_def send_def)
next
  case (TextareaKeyDown e)
  then show ?thesis using assms by (auto simp: reads_runtime_def send_def textarea_onKeyDown_def)
next
  case (Timer n)
  show ?thesis
  proof (cases "n < length (pending s)")
    case False
    then show ?thesis using Timer by (simp add: resume_idle)
  next
    case True
    then show ?thesis using Timer assms
      by (cases "flow_stage (pending s ! n)")
         (simp_all add: reads_runtime_def resume_Wait400 resume_Wait300 resume_Wait700)
  qed
next
  case ClickAttach
  then show ?thesis using assms by (simp add: reads_runtime_def)
qed simp_all

subsection \<open>Rows of the composer\<close>

lemma rows_step:
  assumes "1 \<le> rows s \<and> rows s \<le> 6"
  shows "1 \<le> rows (step lc env ev s) \<and> rows (step lc env ev s) \<le> 6"
proof (cases ev)
  case (Timer n)
  show ?thesis
  proof (cases "n < length (pending s)")
    case False
    then show ?thesis using Timer assms by (simp add: resume_idle)
  next
    case True
    then show ?thesis using Timer assms
      by (cases "flow_stage (pending s ! n)")
         (simp_all add: resume_Wait400 resume_Wait300 resume_Wait700 resume_Wait600)
  qed
qed (use assms in \<open>simp_all add: handleChange_def send_def handleSend_start_def Let_def
       textarea_onKeyDown_def onKey_def attach_demo_def\<close>)

lemma rows_run:
  "1 \<le> rows s \<and> rows s \<le> 6 \<Longrightarrow> run lc tr s = Some s' \<Longrightarrow> 1 \<le> rows s' \<and> rows s' \<le> 6"
proof (induction tr arbitrary: s)
  case Nil
  then show ?case by simp
next
  case (Cons a tr)
  obtain env ev where a: "a = (env, ev)" by (cases a)
  with Cons.prems(2) have r: "run lc tr (step lc env ev s) = Some s'"
    by (simp split: if_splits)
  from Cons.prems(1) have "1 \<le> rows (step lc env ev s) \<and> rows (step lc env ev s) \<le> 6"
    by (rule rows_step)
  then show ?case using r by (rule Cons.IH)
qed

lemma enter_is_send:
  "textarea_onKeyDown env \<lparr>key = js ''Enter'', ctrlKey = c, metaKey = m, shiftKey = False\<rparr> s
     = send env s"
  by (simp add: textarea_onKeyDown_def)

subsection \<open>A send under any schedule\<close>

lemma filter_single_at:
  assumes "filter P ps = [f]" "n < length ps" "P (ps ! n)"
  shows "ps ! n = f \<and> filter P (take n ps) = [] \<and> filter P (drop (Suc n) ps) = []"
proof -
  have "ps = take n ps @ ps ! n # drop (Suc n) ps"
    using assms(2) by (rule id_take_nth_drop)
  then have "filter P ps = filter P (take n ps) @ ps ! n # filter P (drop (Suc n) ps)"
    using assms(3) by (metis filter.simps(2) filter_append)
  with assms(1) have "filter P (take n ps) @ ps ! n # filter P (drop (Suc n) ps) = [f]"
    by simp
  then show ?thesis
    by (cases "filter P (take n ps)") auto
qed

lemma filter_update_hit:
  assumes "filter P ps = [f]" "n < length ps" "P (ps ! n)" "P g"
  shows "filter P (ps[n := g]) = [g]"
  using filter_single_at [OF assms(1,2,3)] assms(2,4)
  by (simp add: upd_conv_take_nth_drop)

lemma filter_remove_hit:
  assumes "filter P ps = [f]" "n < length ps" "P (ps ! n)"
  shows "filter P (take n ps @ drop (Suc n) ps) = []"
  using filter_single_at [OF assms] by simp

lemma filter_update_miss:
  assumes "n < length ps" "\<not> P (ps ! n)" "\<not> P g"
  shows "filter P (ps[n := g]) = filter P ps"
proof -
  have "filter P ps = filter P (take n ps @ ps ! n # drop (Suc n) ps)"
    using assms(1) by (simp add: id_take_nth_drop [symmetric])
  then show ?thesis using assms by (simp add: upd_conv_take_nth_drop)
qed

lemma filter_remove_miss:
  assumes "n < length ps" "\<not> P (ps ! n)"
  shows "filter P (take n ps @ drop (Suc n) ps) = filter P ps"
proof -
  have "filter P ps = filter P (take n ps @ ps ! n # drop (Suc n) ps)"
    using assms(1) by (simp add: id_take_nth_drop [symmetric])
  then show ?thesis using assms by simp
qed

lemma tracked_hit:
  assumes tr: "tracked lc u x th k (pending t)" and n: "n < length (pending t)"
    and u: "flow_id (pending t ! n) = u"
  shows "k < 4 \<and>
         tracked lc u x th (Suc k) (pending (handleSend_resume lc env n t)) \<and>
         map content (drop (length (messages t)) (messages (handleSend_resume lc env n t))) =
           (if k = 3 then [(Bot, slash_reply lc th x, None, None)] else [])"
proof -
  let ?P = "\<lambda>f. flow_id f = u"
  let ?f = "\<lparr>flow_id = u, flow_text = x, flow_theme = th, flow_stage = stage_after lc th x k\<rparr>"
  have k: "k < 4"
  proof (rule ccontr)
    assume "\<not> k < 4"
    then have "filter ?P (pending t) = []" using tr by (simp add: tracked_def)
    moreover have "pending t ! n \<in> set (filter ?P (pending t))" using n u by simp
    ultimately show False by simp
  qed
  then have fl: "filter ?P (pending t) = [?f]" using tr by (simp add: tracked_def)
  from filter_single_at [OF fl n] u have at: "pending t ! n = ?f" by simp
  have upd: "\<And>g. flow_id g = u \<Longrightarrow> filter ?P ((pending t)[n := g]) = [g]"
    using filter_update_hit [OF fl n] u by simp
  have rem: "filter ?P (take n (pending t) @ drop (Suc n) (pending t)) = []"
    using filter_remove_hit [OF fl n] u by simp
  consider "k = 0" | "k = 1" | "k = 2" | "k = 3" using k by linarith
  then have "tracked lc u x th (Suc k) (pending (handleSend_resume lc env n t)) \<and>
         map content (drop (length (messages t)) (messages (handleSend_resume lc env n t))) =
           (if k = 3 then [(Bot, slash_reply lc th x, None, None)] else [])"
  proof cases
    case 1
    then have st: "flow_stage (pending t ! n) = Wait400" by (simp add: at stage_after_def)
    show ?thesis
      using 1 by (simp add: resume_Wait400 [OF n st] tracked_def upd at stage_after_def)
  next
    case 2
    then have st: "flow_stage (pending t ! n) = Wait300" by (simp add: at stage_after_def)
    show ?thesis
      using 2 by (simp add: resume_Wait300 [OF n st] tracked_def upd at stage_after_def)
  next
    case 3
    then have st: "flow_stage (pending t ! n) = Wait700" by (simp add: at stage_after_def)
    show ?thesis
      using 3 by (simp add: resume_Wait700 [OF n st] tracked_def upd at stage_after_def)
  next
    case 4
    then have st: "flow_stage (pending t ! n) = Wait600 (slash_reply lc th x)"
      by (simp add: at stage_after_def)
    show ?thesis
      using 4 rem by (simp add: resume_Wait600 [OF n st] tracked_def content_def del: filter_append)
  qed
  with k show ?thesis by simp
qed

lemma tracked_miss_timer:
  assumes tr: "tracked lc u x th k (pending t)"
    and miss: "\<not> (n < length (pending t) \<and> flow_id (pending t ! n) = u)"
  shows "tracked lc u x th k (pending (handleSend_resume lc env n t))"
proof (cases "n < length (pending t)")
  case False
  then show ?thesis using tr by (simp add: resume_idle)
next
  case True
  with miss have nu: "flow_id (pending t ! n) \<noteq> u" by simp
  have upd: "\<And>g. flow_id g \<noteq> u \<Longrightarrow>
      filter (\<lambda>f. flow_id f = u) ((pending t)[n := g]) = filter (\<lambda>f. flow_id f = u) (pending t)"
    using filter_update_miss [OF True, of "\<lambda>f. flow_id f = u"] nu by simp
  have rem: "filter (\<lambda>f. flow_id f = u) (take n (pending t) @ drop (Suc n) (pending t))
      = filter (\<lambda>f. flow_id f = u) (pending t)"
    using filter_remove_miss [OF True, of "\<lambda>f. flow_id f = u"] nu by simp
  show ?thesis
    using tr nu
    by (cases "flow_stage (pending t ! n)")
       (simp_all add: resume_Wait400 resume_Wait300 resume_Wait700 resume_Wait600 True
          tracked_def upd rem del: filter_append)
qed

lemma tracked_miss:
  assumes tr: "tracked lc u x th k (pending t)" and "\<not> addressed u ev t" "randomUUID env \<noteq> u"
  shows "tracked lc u x th k (pending (step lc env ev t))"
proof (cases ev)
  case (Timer n)
  then show ?thesis using assms tracked_miss_timer [OF tr, of n] by simp
qed (use assms in \<open>auto simp: tracked_def handleChange_def send_def handleSend_start_def Let_def
       textarea_onKeyDown_def onKey_def attach_demo_def\<close>)

lemma addressed_timer:
  assumes "addressed u ev t"
  obtains n where "ev = Timer n" "n < length (pending t)" "flow_id (pending t ! n) = u"
  using assms by (cases ev) auto

lemma flow_progress:
  assumes "tracked lc u x th k (pending t)" "k \<le> 4"
    and "u \<notin> set (map (\<lambda>p. randomUUID (fst p)) tr)"
  shows "k + timers_fired lc u tr t \<le> 4 \<and>
         tracked lc u x th (k + timers_fired lc u tr t) (pending (exec lc tr t)) \<and>
         map content (added_by lc u tr t) =
           (if k < 4 \<and> k + timers_fired lc u tr t = 4
            then [(Bot, slash_reply lc th x, None, None)] else [])"
  using assms
proof (induction tr arbitrary: t k)
  case Nil
  then show ?case by simp
next
  case (Cons a tr)
  obtain env ev where a: "a = (env, ev)" by (cases a)
  from Cons.prems(3) a have env: "randomUUID env \<noteq> u"
    and rest: "u \<notin> set (map (\<lambda>p. randomUUID (fst p)) tr)"
    by auto
  show ?case
  proof (cases "addressed u ev t")
    case True
    then obtain n where ev: "ev = Timer n" and n: "n < length (pending t)"
      and u: "flow_id (pending t ! n) = u"
      by (rule addressed_timer)
    from tracked_hit [OF Cons.prems(1) n u, of env]
    have k: "k < 4"
      and tr': "tracked lc u x th (Suc k) (pending (step lc env ev t))"
      and now: "map content (drop (length (messages t)) (messages (step lc env ev t))) =
           (if k = 3 then [(Bot, slash_reply lc th x, None, None)] else [])"
      by (simp_all add: ev)
    from k have "Suc k \<le> 4" by simp
    from Cons.IH [OF tr' this rest]
    have ih: "Suc k + timers_fired lc u tr (step lc env ev t) \<le> 4"
      "tracked lc u x th (Suc k + timers_fired lc u tr (step lc env ev t))
         (pending (exec lc tr (step lc env ev t)))"
      "map content (added_by lc u tr (step lc env ev t)) =
         (if Suc k < 4 \<and> Suc k + timers_fired lc u tr (step lc env ev t) = 4
          then [(Bot, slash_reply lc th x, None, None)] else [])"
      by simp_all
    show ?thesis
      using True k ih now by (auto simp: a)
  next
    case False
    from Cons.prems(1) False env
    have tr': "tracked lc u x th k (pending (step lc env ev t))" by (rule tracked_miss)
    from Cons.IH [OF tr' Cons.prems(2) rest] False
    show ?thesis by (simp add: a)
  qed
qed

lemma tracked_started:
  assumes "trim (input_value s) \<noteq> []" "uuid_fresh (randomUUID e0) s"
  shows "tracked lc (randomUUID e0) (trim (input_value s)) (theme s) 0
           (pending (step lc e0 ClickSend s))"
proof -
  have "filter (\<lambda>f. flow_id f = randomUUID e0) (pending s) = []"
    using assms(2) by (auto simp: uuid_fresh_def filter_empty_conv dest: fresh_flow)
  then show ?thesis
    using assms(1) by (simp add: tracked_def send_started stage_after_def)
qed

lemma tracked_member:
  assumes "tracked lc u x th k ps"
  shows "u \<in> set (map flow_id ps) \<longleftrightarrow> k < 4"
proof -
  have "u \<in> set (map flow_id ps) \<longleftrightarrow> filter (\<lambda>f. flow_id f = u) ps \<noteq> []"
    by (auto simp: filter_empty_conv)
  then show ?thesis using assms by (simp add: tracked_def)
qed

lemma send_progress:
  assumes "trim (input_value s) \<noteq> []" "uuid_fresh (randomUUID e0) s"
    and "randomUUID e0 \<notin> set (map (\<lambda>p. randomUUID (fst p)) tr)"
  shows "timers_fired lc (randomUUID e0) tr (step lc e0 ClickSend s) \<le> 4"
    and "map content (added_by lc (randomUUID e0) tr (step lc e0 ClickSend s)) =
           (if timers_fired lc (randomUUID e0) tr (step lc e0 ClickSend s) = 4
            then [(Bot, slash_reply lc (theme s) (trim (input_value s)), None, None)] else [])"
    and "randomUUID e0 \<in> set (map flow_id (pending (exec lc tr (step lc e0 ClickSend s)))) \<longleftrightarrow>
           timers_fired lc (randomUUID e0) tr (step lc e0 ClickSend s) < 4"
proof -
  let ?s1 = "step lc e0 ClickSend s"
  let ?u = "randomUUID e0"
  have p: "0 + timers_fired lc ?u tr ?s1 \<le> 4 \<and>
      tracked lc ?u (trim (input_value s)) (theme s) (0 + timers_fired lc ?u tr ?s1)
        (pending (exec lc tr ?s1)) \<and>
      map content (added_by lc ?u tr ?s1) =
        (if 0 < (4::nat) \<and> 0 + timers_fired lc ?u tr ?s1 = 4
         then [(Bot, slash_reply lc (theme s) (trim (input_value s)), None, None)] else [])"
    by (rule flow_progress [OF tracked_started [OF assms(1,2)] _ assms(3)]) simp
  then have t: "tracked lc ?u (trim (input_value s)) (theme s) (timers_fired lc ?u tr ?s1)
        (pending (exec lc tr ?s1))"
    by simp
  show "timers_fired lc ?u tr ?s1 \<le> 4"
    using p by simp
  show "map content (added_by lc ?u tr ?s1) =
           (if timers_fired lc ?u tr ?s1 = 4
            then [(Bot, slash_reply lc (theme s) (trim (input_value s)), None, None)] else [])"
    using p by simp
  show "?u \<in> set (map flow_id (pending (exec lc tr ?s1))) \<longleftrightarrow> timers_fired lc ?u tr ?s1 < 4"
    using t by (rule tracked_member)
qed

lemma without_status_set_status [simp]:
  "without_status (set_status i st m) = without_status m"
  by (simp add: without_status_def set_status_def)

lemma resume_keeps_messages:
  "map without_status (take (length (messages t)) (messages (handleSend_resume lc env k t))) =
     map without_status (messages t) \<and>
   length (messages (handleSend_resume lc env k t)) \<le> Suc (length (messages t))"
proof (cases "k < length (pending t)")
  case False
  then show ?thesis by (simp add: resume_idle)
next
  case True
  have w: "\<And>i st. map without_status (map (set_status i st) (messages t)) = map without_status (messages t)"
    by simp
  from True show ?thesis
    by (cases "flow_stage (pending t ! k)")
       (simp_all add: resume_Wait400 resume_Wait300 resume_Wait700 resume_Wait600 w)
qed

lemma overlap_ids:
  "randomUUID env_a \<notin> set (map (\<lambda>p. randomUUID (fst p)) overlap_trace)"
  by (simp add: overlap_trace_def env_a_def env_b_def env_c_def env_d_def js_def)

lemma overlap_fired_help:
  "timers_fired toLowerCase_ascii (randomUUID env_a) overlap_trace
     (step toLowerCase_ascii env_a ClickSend typed_state) = 4"
  by code_simp

lemma overlap_fired_theme:
  "timers_fired toLowerCase_ascii (randomUUID env_a) overlap_trace
     (step toLowerCase_ascii env_a ClickSend (initial_state\<lparr>input_value := js ''/theme''\<rparr>)) = 4"
  by code_simp

lemma overlap_start:
  "trim (input_value typed_state) = js ''/Help''"
  "theme typed_state = Dark"
  "uuid_fresh (randomUUID env_a) typed_state"
  using demo_strings(5)
  by (simp_all add: typed_state_eq demo_strings(1) initial_state_def uuid_fresh_def)

lemma theme_start:
  "trim (input_value (initial_state\<lparr>input_value := js ''/theme''\<rparr>)) \<noteq> []"
  "uuid_fresh (randomUUID env_a) (initial_state\<lparr>input_value := js ''/theme''\<rparr>)"
  using demo_strings(5)
  by (simp_all add: demo_theme_command initial_state_def uuid_fresh_def)

subsection \<open>Two runs of a step\<close>

lemma resume_erased:
  "erase_created s (handleSend_resume lc e1 n s) = erase_created s (handleSend_resume lc e2 n s)"
proof (cases "n < length (pending s)")
  case False
  then show ?thesis by (simp add: resume_idle)
next
  case True
  then show ?thesis
    by (cases "flow_stage (pending s ! n)")
       (simp_all add: resume_Wait400 resume_Wait300 resume_Wait700 resume_Wait600
          erase_created_def blank_ids_def)
qed

lemma send_erased: "erase_created s (send e1 s) = erase_created s (send e2 s)"
  by (simp add: send_def handleSend_start_def Let_def erase_created_def blank_ids_def blank_flow_def)

lemma step_erased: "erase_created s (step lc e1 ev s) = erase_created s (step lc e2 ev s)"
proof (cases ev)
  case ClickSend
  then show ?thesis by (simp add: send_erased)
next
  case (TextareaKeyDown e)
  then show ?thesis by (simp add: textarea_onKeyDown_def send_erased)
next
  case (Timer n)
  then show ?thesis by (simp add: resume_erased)
next
  case ClickAttach
  then show ?thesis by (simp add: attach_demo_def erase_created_def blank_ids_def)
qed simp_all

lemma step_given_values:
  assumes "runtime_values_read ev s e1 = runtime_values_read ev s e2"
  shows "step lc e1 ev s = step lc e2 ev s"
proof (cases ev)
  case ClickSend
  then show ?thesis using assms
    by (simp add: runtime_values_read_def send_def handleSend_start_def Let_def split: if_splits)
next
  case (TextareaKeyDown e)
  show ?thesis
  proof (cases "key e = js ''Enter'' \<and> \<not> shiftKey e")
    case True
    then show ?thesis using TextareaKeyDown assms
      by (simp add: runtime_values_read_def textarea_onKeyDown_def send_def handleSend_start_def
          Let_def split: if_splits)
  next
    case False
    then show ?thesis using TextareaKeyDown by (auto simp: textarea_onKeyDown_def)
  qed
next
  case (Timer n)
  show ?thesis
  proof (cases "n < length (pending s)")
    case False
    then show ?thesis using Timer by (simp add: resume_idle)
  next
    case True
    then show ?thesis using Timer assms
      by (cases "flow_stage (pending s ! n)")
         (simp_all add: runtime_values_read_def resume_Wait400 resume_Wait300 resume_Wait700
            resume_Wait600)
  qed
next
  case ClickAttach
  then show ?thesis using assms by (simp add: runtime_values_read_def attach_demo_def)
qed simp_all

section \<open>The properties\<close>

text \<open>
  Claim C1. For a composer value that is not empty after trimming, the send (by the Send
  button or by Enter) appends exactly one user message, the trimmed text with status
  sending, to the message list. Whatever happens after it (other handlers, other sends in
  flight, timers in any order), as long as \<open>crypto.randomUUID()\<close> does not return the
  identifier of this send again: at most four timers of this call fire, the call stays in
  flight until the fourth, before the fourth its timers append nothing, and the fourth
  appends exactly one message, the bot reply to the text sent. Every timer of a call, in
  any state, keeps the messages present at their places, changing at most their status, and
  adds at most one message. When the four timers come with nothing in between, the list is
  the one before the send, the user message (now read) and the bot reply.
\<close>

theorem send_appends_user_then_bot:
  assumes "trim (input_value s) \<noteq> []" and "uuid_fresh (randomUUID e0) s"
    and "randomUUID e0 \<notin> set (map (\<lambda>p. randomUUID (fst p)) tr)"
  shows
   "messages (step lc e0 ClickSend s) =
      messages s @
        [\<lparr>msg_id = randomUUID e0, sender = User, msg_text = trim (input_value s),
          time = timeNow e0, status = Some Sending, attachments = None\<rparr>] \<and>
    step lc e0 (TextareaKeyDown \<lparr>key = js ''Enter'', ctrlKey = c, metaKey = m, shiftKey = False\<rparr>) s =
      step lc e0 ClickSend s \<and>
    timers_fired lc (randomUUID e0) tr (step lc e0 ClickSend s) \<le> 4 \<and>
    map content (added_by lc (randomUUID e0) tr (step lc e0 ClickSend s)) =
      (if timers_fired lc (randomUUID e0) tr (step lc e0 ClickSend s) = 4
       then [(Bot, slash_reply lc (theme s) (trim (input_value s)), None, None)] else []) \<and>
    (randomUUID e0 \<in> set (map flow_id (pending (exec lc tr (step lc e0 ClickSend s)))) \<longleftrightarrow>
       timers_fired lc (randomUUID e0) tr (step lc e0 ClickSend s) < 4) \<and>
    messages (send_chain lc e0 e1 e2 e3 e4 s) =
      messages s @
        [\<lparr>msg_id = randomUUID e0, sender = User, msg_text = trim (input_value s),
          time = timeNow e0, status = Some Read, attachments = None\<rparr>,
         \<lparr>msg_id = randomUUID e4, sender = Bot,
          msg_text = slash_reply lc (theme s) (trim (input_value s)),
          time = clock e4, status = None, attachments = None\<rparr>] \<and>
    pending (send_chain lc e0 e1 e2 e3 e4 s) = pending s \<and>
    map without_status (take (length (messages t)) (messages (step lc env (Timer k) t))) =
      map without_status (messages t) \<and>
    length (messages (step lc env (Timer k) t)) \<le> Suc (length (messages t))"
proof -
  have fresh: "randomUUID e0 \<notin> msg_id ` set (messages s)"
    using assms(2) by (simp add: uuid_fresh_def)
  show ?thesis
    using send_progress [OF assms, of lc] resume_keeps_messages [of t lc env k] assms(1) fresh
    by (simp add: send_started send_chain_run map_set_status_fresh enter_is_send)
qed

text \<open>
  The property at a concrete input: a second send overlaps the first, the theme is
  toggled, and the timers of the two calls interleave.
\<close>

theorem send_appends_user_then_bot_witness:
  "trim (input_value typed_state) \<noteq> [] \<and>
   uuid_fresh (randomUUID env_a) typed_state \<and>
   randomUUID env_a \<notin> set (map (\<lambda>p. randomUUID (fst p)) overlap_trace) \<and>
   messages (step toLowerCase_ascii env_a ClickSend typed_state) =
     introMessages @
       [\<lparr>msg_id = randomUUID env_a, sender = User, msg_text = js ''/Help'',
         time = js ''10:05'', status = Some Sending, attachments = None\<rparr>] \<and>
   timers_fired toLowerCase_ascii (randomUUID env_a) overlap_trace
     (step toLowerCase_ascii env_a ClickSend typed_state) = 4 \<and>
   map content (added_by toLowerCase_ascii (randomUUID env_a) overlap_trace
     (step toLowerCase_ascii env_a ClickSend typed_state)) = [(Bot, reply_help, None, None)] \<and>
   messages (send_chain toLowerCase_ascii env_a env_b env_b env_b env_b typed_state) =
     introMessages @
       [\<lparr>msg_id = randomUUID env_a, sender = User, msg_text = js ''/Help'',
         time = js ''10:05'', status = Some Read, attachments = None\<rparr>,
        \<lparr>msg_id = randomUUID env_b, sender = Bot, msg_text = reply_help,
         time = js ''10:06'', status = None, attachments = None\<rparr>]"
proof -
  have m: "messages typed_state = introMessages"
    by (simp add: typed_state_eq initial_state_def)
  have ne: "trim (input_value typed_state) \<noteq> []"
    using demo_strings(3) by (simp add: overlap_start(1))
  have tm: "timeNow env_a = js ''10:05''" "clock env_b = js ''10:06''"
    by (simp_all add: env_a_def env_b_def)
  show ?thesis
    using send_appends_user_then_bot [OF ne overlap_start(3) overlap_ids,
        where lc = toLowerCase_ascii and ?e1.0 = env_b and ?e2.0 = env_b and ?e3.0 = env_b
          and ?e4.0 = env_b and t = typed_state and env = env_b and k = 0]
      ne overlap_start(3) overlap_ids overlap_fired_help
    by (simp add: overlap_start(1,2) demo_strings(2) m tm)
qed

text \<open>
  Claim C2. When the composer's value is empty or holds only white space, a click on Send
  and the Enter key (without Shift) leave the whole state as it is: no message is created
  and no call of \<open>handleSend\<close> is started.
\<close>

theorem blank_send_is_noop:
  assumes "\<forall>c\<in>set (input_value s). is_trim_space c"
  shows "step lc env ClickSend s = s \<and>
         step lc env (TextareaKeyDown \<lparr>key = js ''Enter'', ctrlKey = c, metaKey = m, shiftKey = False\<rparr>) s = s"
  using assms by (simp add: send_def textarea_onKeyDown_def trim_nil_iff)

text \<open>The property at a concrete input.\<close>

theorem blank_send_is_noop_witness:
  "list_all is_trim_space (input_value (initial_state\<lparr>input_value := js '' ''\<rparr>)) \<and>
   messages (step toLowerCase_ascii env_a ClickSend (initial_state\<lparr>input_value := js '' ''\<rparr>)) = introMessages"
  using blank_send_is_noop [of "initial_state\<lparr>input_value := js '' ''\<rparr>" toLowerCase_ascii env_a False False]
  by (simp add: initial_state_def js_def is_trim_space_def)

text \<open>
  Claim C3. In every state a run reaches, every step (a handler or a timer of a call in
  flight) leaves each message of the list at its place with a status that stays or moves
  to the next one of sending, sent, delivered, read, unless the step clears the list. No
  step moves a status backwards.
\<close>

theorem status_only_advances:
  assumes "run lc tr initial_state = Some s"
  shows "statuses_advance (messages s) (messages (step lc env ev s))"
  using consistent_run [OF consistent_initial assms] by (rule step_advances)

text \<open>The property at a concrete input.\<close>

theorem status_only_advances_witness:
  "run toLowerCase_ascii [(env_a, Change (js '' /Help '')), (env_a, ClickSend)] initial_state = Some sent_state \<and>
   statuses_advance (messages sent_state) (messages (step toLowerCase_ascii env_b (Timer 0) sent_state)) \<and>
   map status (messages sent_state) = [None, Some Read, None, Some Sending] \<and>
   map status (messages (step toLowerCase_ascii env_b (Timer 0) sent_state)) = [None, Some Read, None, Some Sent]"
proof -
  have "map status (messages sent_state) = [None, Some Read, None, Some Sending]"
    by (simp add: sent_state_eq initial_state_def introMessages_def)
  moreover have "map status (messages (step toLowerCase_ascii env_b (Timer 0) sent_state))
      = [None, Some Read, None, Some Sent]"
    unfolding sent_state_ticked by (simp add: introMessages_def)
  ultimately show ?thesis
    using status_only_advances [OF run_to_sent, of env_b "Timer 0"] run_to_sent by simp
qed

text \<open>
  Claim C4. The theme has the two values light and dark; the toggle maps light to dark
  and dark to light, and applied twice it gives the theme back. The toggle button and
  Ctrl/Cmd+J both apply it to the theme of the state.
\<close>

theorem theme_toggle_involution:
  "toggle_theme Light = Dark \<and> toggle_theme Dark = Light \<and> (t = Light \<or> t = Dark) \<and>
   toggle_theme (toggle_theme t) = t \<and>
   step lc env ClickThemeToggle s = s\<lparr>theme := toggle_theme (theme s)\<rparr> \<and>
   step lc env (WindowKeyDown e) s =
     (if (ctrlKey e \<or> metaKey e) \<and> lc (key e) = js ''j''
      then s\<lparr>theme := toggle_theme (theme s)\<rparr> else s) \<and>
   step lc env' ClickThemeToggle (step lc env ClickThemeToggle s) = s"
  by (cases t; cases s; cases "theme s") (simp_all add: toggle_theme_def onKey_def)

text \<open>The property at a concrete input.\<close>

theorem theme_toggle_involution_witness:
  "theme (step toLowerCase_ascii env_a ClickThemeToggle initial_state) = Light \<and>
   step toLowerCase_ascii env_a (WindowKeyDown \<lparr>key = js ''J'', ctrlKey = True, metaKey = False, shiftKey = False\<rparr>)
     (step toLowerCase_ascii env_a ClickThemeToggle initial_state) = initial_state"
  using theme_toggle_involution [of Dark toLowerCase_ascii env_a initial_state
     "\<lparr>key = js ''J'', ctrlKey = True, metaKey = False, shiftKey = False\<rparr>" env_a]
    theme_toggle_involution [of Light toLowerCase_ascii env_a "step toLowerCase_ascii env_a ClickThemeToggle initial_state"
     "\<lparr>key = js ''J'', ctrlKey = True, metaKey = False, shiftKey = False\<rparr>" env_a]
  by (simp add: initial_state_def js_def toLowerCase_ascii_def toggle_theme_def)

text \<open>
  Claim C5. A click on Clear sets the message list to the empty list, and the scroll area
  shows the empty-state view exactly when the message list is empty.
\<close>

theorem clear_empties_and_shows_empty_state:
  "messages (step lc env ClickClear s) = [] \<and>
   (EmptyStateV \<in> set (scroll_area s) \<longleftrightarrow> messages s = []) \<and>
   EmptyStateV \<in> set (scroll_area (step lc env ClickClear s))"
  by (auto simp: scroll_area_def)

text \<open>
  Claim C6. A click on a thread of the sidebar sets the active thread id and nothing
  else: the message list and the scroll area are unchanged, and the sidebar still lists
  the static demo threads, with the clicked one marked active.
\<close>

theorem select_thread_frame:
  "step lc env (ClickThread t) s = s\<lparr>activeThread := thread_id t\<rparr> \<and>
   activeThread (step lc env (ClickThread t) s) = thread_id t \<and>
   messages (step lc env (ClickThread t) s) = messages s \<and>
   scroll_area (step lc env (ClickThread t) s) = scroll_area s \<and>
   map fst (sidebar_threads (step lc env (ClickThread t) s)) = demoThreads \<and>
   map snd (sidebar_threads (step lc env (ClickThread t) s)) = map (\<lambda>d. thread_id d = thread_id t) demoThreads"
  by (simp add: scroll_area_def sidebar_threads_def comp_def)

text \<open>
  Claim C7 as stated fails: the same click on Send in the same state gives two different
  states when \<open>crypto.randomUUID()\<close> returns two different identifiers.
\<close>

theorem send_depends_on_random_id:
  "step toLowerCase_ascii env_a ClickSend typed_state \<noteq> step toLowerCase_ascii env_b ClickSend typed_state"
proof
  assume "step toLowerCase_ascii env_a ClickSend typed_state = step toLowerCase_ascii env_b ClickSend typed_state"
  then have "messages (step toLowerCase_ascii env_a ClickSend typed_state) =
             messages (step toLowerCase_ascii env_b ClickSend typed_state)"
    by simp
  then show False
    using demo_strings(4) by (simp add: typed_state_eq send_started demo_strings initial_state_def)
qed

text \<open>
  Claim C7, as amended. A step reads, beside the state and the event, only values of
  \<open>crypto.randomUUID()\<close> and of the time: two runs of a step in which the values read
  are the same give the same state, and a handler that reads none gives the same state on
  every run. For every event, two runs of the step from the same state give states that
  are equal once the identifier and the time of the messages created and the identifier
  of the call started are erased: the messages already there, the calls already in flight
  and every other part of the state are the same.
\<close>

theorem step_deterministic_up_to_runtime_values:
  "erase_created s (step lc e1 ev s) = erase_created s (step lc e2 ev s) \<and>
   (runtime_values_read ev s e1 = runtime_values_read ev s e2 \<longrightarrow>
      step lc e1 ev s = step lc e2 ev s) \<and>
   (\<not> reads_runtime ev s \<longrightarrow> step lc e1 ev s = step lc e2 ev s)"
  using step_erased [of s lc e1 ev e2] step_given_values [of ev s e1 e2 lc]
    step_without_runtime [of ev s lc e1 e2]
  by blast

text \<open>The property at a concrete input.\<close>

theorem step_deterministic_up_to_runtime_values_witness:
  "erase_created typed_state (step toLowerCase_ascii env_a ClickSend typed_state) =
     erase_created typed_state (step toLowerCase_ascii env_b ClickSend typed_state) \<and>
   runtime_values_read ClickSend typed_state env_a =
     runtime_values_read ClickSend typed_state (env_a\<lparr>clock := js ''23:59''\<rparr>) \<and>
   step toLowerCase_ascii env_a ClickSend typed_state =
     step toLowerCase_ascii (env_a\<lparr>clock := js ''23:59''\<rparr>) ClickSend typed_state \<and>
   \<not> reads_runtime ClickClear initial_state \<and>
   step toLowerCase_ascii env_a ClickClear initial_state =
     step toLowerCase_ascii env_b ClickClear initial_state"
  using step_deterministic_up_to_runtime_values [of typed_state toLowerCase_ascii env_a ClickSend env_b]
    step_deterministic_up_to_runtime_values [of typed_state toLowerCase_ascii env_a ClickSend
       "env_a\<lparr>clock := js ''23:59''\<rparr>"]
    step_deterministic_up_to_runtime_values [of initial_state toLowerCase_ascii env_a ClickClear env_b]
  by (simp add: reads_runtime_def runtime_values_read_def)

text \<open>
  Claim C8 as stated fails: for the same sent text \<open>/theme\<close> the appended bot reply is
  one string under the dark theme and another under the light theme.
\<close>

theorem theme_reply_not_fixed:
  "msg_text (last (messages (send_chain toLowerCase_ascii env_a env_b env_b env_b env_b
      (initial_state\<lparr>input_value := js ''/theme''\<rparr>)))) \<noteq>
   msg_text (last (messages (send_chain toLowerCase_ascii env_a env_b env_b env_b env_b
      (initial_state\<lparr>theme := Light, input_value := js ''/theme''\<rparr>))))"
  using theme_names_differ
  by (simp add: send_chain_run demo_theme_command initial_state_def)

text \<open>
  Claim C8, as amended. When the sent text starts with \<open>/\<close> and the rest, trimmed and
  lowercased, is \<open>help\<close>, \<open>shortcuts\<close> or \<open>a11y\<close>, the reply is the fixed string of
  that command; when it is \<open>theme\<close>, the reply is \<open>Theme is currently\<close> followed by
  the name of the theme and the hint to toggle; for every other text it is the default
  string. For every send of a text that is not blank and whatever happens after it (theme
  toggles, other sends, timers in any order), the message that the fourth timer of the
  call appends is the bot's and its text is this reply for the text sent and for the theme
  of the state the send was made in.
\<close>

theorem bot_reply_by_command:
  assumes "trim (input_value s) \<noteq> []" and "uuid_fresh (randomUUID e0) s"
    and "randomUUID e0 \<notin> set (map (\<lambda>p. randomUUID (fst p)) tr)"
  shows
   "slash_reply lc th x =
      (if startsWith x (js ''/'') then
         (let cmd = lc (trim (slice_from 1 x)) in
          if cmd = js ''help'' then reply_help
          else if cmd = js ''shortcuts'' then reply_shortcuts
          else if cmd = js ''theme'' then reply_theme th
          else if cmd = js ''a11y'' then reply_a11y
          else reply_default)
       else reply_default) \<and>
    map (\<lambda>m. (sender m, msg_text m))
        (added_by lc (randomUUID e0) tr (step lc e0 ClickSend s)) =
      (if timers_fired lc (randomUUID e0) tr (step lc e0 ClickSend s) = 4
       then [(Bot, slash_reply lc (theme s) (trim (input_value s)))] else []) \<and>
    last (messages (send_chain lc e0 e1 e2 e3 e4 s)) =
      \<lparr>msg_id = randomUUID e4, sender = Bot,
       msg_text = slash_reply lc (theme s) (trim (input_value s)),
       time = clock e4, status = None, attachments = None\<rparr>"
proof (intro conjI)
  show "slash_reply lc th x =
      (if startsWith x (js ''/'') then
         (let cmd = lc (trim (slice_from 1 x)) in
          if cmd = js ''help'' then reply_help
          else if cmd = js ''shortcuts'' then reply_shortcuts
          else if cmd = js ''theme'' then reply_theme th
          else if cmd = js ''a11y'' then reply_a11y
          else reply_default)
       else reply_default)"
    by (rule slash_reply_cases)
  have c: "map content (added_by lc (randomUUID e0) tr (step lc e0 ClickSend s)) =
      (if timers_fired lc (randomUUID e0) tr (step lc e0 ClickSend s) = 4
       then [(Bot, slash_reply lc (theme s) (trim (input_value s)), None, None)] else [])"
    using assms by (rule send_progress(2))
  have "map (\<lambda>m. (sender m, msg_text m)) (added_by lc (randomUUID e0) tr (step lc e0 ClickSend s))
      = map (\<lambda>c. (fst c, fst (snd c)))
          (map content (added_by lc (randomUUID e0) tr (step lc e0 ClickSend s)))"
    unfolding map_map by (rule map_cong) (simp_all add: content_def)
  also have "\<dots> = (if timers_fired lc (randomUUID e0) tr (step lc e0 ClickSend s) = 4
       then [(Bot, slash_reply lc (theme s) (trim (input_value s)))] else [])"
    unfolding c by simp
  finally show "map (\<lambda>m. (sender m, msg_text m))
        (added_by lc (randomUUID e0) tr (step lc e0 ClickSend s)) =
      (if timers_fired lc (randomUUID e0) tr (step lc e0 ClickSend s) = 4
       then [(Bot, slash_reply lc (theme s) (trim (input_value s)))] else [])" .
  show "last (messages (send_chain lc e0 e1 e2 e3 e4 s)) =
      \<lparr>msg_id = randomUUID e4, sender = Bot,
       msg_text = slash_reply lc (theme s) (trim (input_value s)),
       time = clock e4, status = None, attachments = None\<rparr>"
    by (simp add: send_chain_run [OF assms(1)])
qed

text \<open>
  The property at a concrete input: \<open>/theme\<close> is sent under the dark theme, then
  \<open>/a11y\<close> is sent and the theme toggled before the first reply arrives.
\<close>

theorem bot_reply_by_command_witness:
  "trim (input_value (initial_state\<lparr>input_value := js ''/theme''\<rparr>)) \<noteq> [] \<and>
   uuid_fresh (randomUUID env_a) (initial_state\<lparr>input_value := js ''/theme''\<rparr>) \<and>
   randomUUID env_a \<notin> set (map (\<lambda>p. randomUUID (fst p)) overlap_trace) \<and>
   timers_fired toLowerCase_ascii (randomUUID env_a) overlap_trace
     (step toLowerCase_ascii env_a ClickSend (initial_state\<lparr>input_value := js ''/theme''\<rparr>)) = 4 \<and>
   map (\<lambda>m. (sender m, msg_text m))
     (added_by toLowerCase_ascii (randomUUID env_a) overlap_trace
        (step toLowerCase_ascii env_a ClickSend (initial_state\<lparr>input_value := js ''/theme''\<rparr>))) =
     [(Bot, reply_theme Dark)]"
  using bot_reply_by_command [OF theme_start(1) theme_start(2) overlap_ids,
        where lc = toLowerCase_ascii and th = Dark and x = "js ''/theme''"
          and ?e1.0 = env_b and ?e2.0 = env_b and ?e3.0 = env_b and ?e4.0 = env_b]
    theme_start overlap_ids overlap_fired_theme
  by (simp add: demo_theme_command initial_state_def)

text \<open>
  Claim C9. In every state a run reaches from the initial demo messages (by sends, their
  timers, the attach-demo button, clear and every other handler), a message whose sender
  is the bot has no status, and a message that has a status is the user's.
\<close>

theorem bot_messages_have_no_status:
  assumes "run lc tr initial_state = Some s"
  shows "\<forall>m\<in>set (messages s). (sender m = Bot \<longrightarrow> status m = None) \<and> (status m \<noteq> None \<longrightarrow> sender m = User)"
proof -
  have "bot_unmarked (messages s)"
    using consistent_run [OF consistent_initial assms] by (simp add: consistent_def)
  then show ?thesis
    unfolding bot_unmarked_def by (metis Sender.exhaust)
qed

text \<open>The property at a concrete input.\<close>

theorem bot_messages_have_no_status_witness:
  "run toLowerCase_ascii demo_trace initial_state = Some replied_state \<and>
   map (\<lambda>m. (sender m, status m)) (messages replied_state) =
     [(Bot, None), (User, Some Read), (Bot, None), (User, Some Read), (Bot, None)]"
  using bot_messages_have_no_status [OF run_demo_trace] run_demo_trace
  by (simp add: replied_state_eq initial_state_def introMessages_def)

text \<open>
  Claim C10. A send of a value that is not blank (by the Send button or by Enter) resets
  the composer's value to the empty string and its rows to 1; on every change of the value
  the rows are one more than the number of line feeds, clamped between 1 and 6; in every
  state a run reaches the rows are between 1 and 6.
\<close>

theorem composer_reset_and_rows_clamped:
  "(trim (input_value s) \<noteq> [] \<longrightarrow>
      input_value (step lc env ClickSend s) = [] \<and> rows (step lc env ClickSend s) = 1 \<and>
      input_value (step lc env (TextareaKeyDown
         \<lparr>key = js ''Enter'', ctrlKey = c, metaKey = m, shiftKey = False\<rparr>) s) = [] \<and>
      rows (step lc env (TextareaKeyDown
         \<lparr>key = js ''Enter'', ctrlKey = c, metaKey = m, shiftKey = False\<rparr>) s) = 1) \<and>
   input_value (step lc env (Change v) s) = v \<and>
   rows (step lc env (Change v) s) = min 6 (Suc (length (filter (\<lambda>c. c = 0x000A) v))) \<and>
   1 \<le> rows (step lc env (Change v) s) \<and> rows (step lc env (Change v) s) \<le> 6 \<and>
   (run lc tr initial_state = Some s' \<longrightarrow> 1 \<le> rows s' \<and> rows s' \<le> 6)"
proof -
  have "run lc tr initial_state = Some s' \<longrightarrow> 1 \<le> rows s' \<and> rows s' \<le> 6"
    using rows_run [of initial_state lc tr s'] by (simp add: initial_state_def)
  then show ?thesis
    by (simp add: enter_is_send send_started handleChange_def split_on_length)
qed

text \<open>The property at a concrete input.\<close>

theorem composer_reset_and_rows_clamped_witness:
  "trim (input_value typed_state) \<noteq> [] \<and>
   rows (step toLowerCase_ascii env_a ClickSend typed_state) = 1 \<and>
   rows (step toLowerCase_ascii env_a (Change [0x61, 0x0A, 0x0A, 0x0A, 0x0A, 0x0A, 0x0A, 0x0A, 0x62])
     typed_state) = 6 \<and>
   run toLowerCase_ascii demo_trace initial_state = Some replied_state \<and> rows replied_state = 1"
  using composer_reset_and_rows_clamped [of typed_state toLowerCase_ascii env_a False False
     "[0x61, 0x0A, 0x0A, 0x0A, 0x0A, 0x0A, 0x0A, 0x0A, 0x62]" demo_trace replied_state]
    run_demo_trace demo_strings(3)
  by (simp add: typed_state_eq demo_strings(1) replied_state_eq initial_state_def)

end
